theory Spec2Isabelle
  imports Main "HOL-Library.Word" "HOL-Library.AList"
begin

section \<open>The presence registry of govitest.go\<close>

text \<open>
  The program keeps a process-wide registry \<open>api\<close> of conference rooms. Three HTTP
  handlers work on it: \<open>checkInHandler\<close> puts a user into a room (creating the room on
  demand), \<open>updatePresenceHandler\<close> moves the expiry of a user that is already there, and
  \<open>listRoomsHandler\<close> lists every room with its users, deleting the expired ones on the way.

  The handlers are embedded as functions from the registry to a response and the new
  registry. What lies outside the registry is a parameter: the reading of \<open>time.Now()\<close>
  and the outcome of \<open>json.NewDecoder(r.Body).Decode(&req)\<close>.
\<close>

subsection \<open>Time\<close>

text \<open>
  A \<open>time.Time\<close> is an instant on one time line, counted in nanoseconds; a
  \<open>time.Duration\<close> is Go's \<open>int64\<close> count of nanoseconds, whose arithmetic wraps around.
  \<open>Time.Add\<close> moves an instant by the signed value of the duration (the saturation of
  \<open>Time.Add\<close> at the ends of its range of some 292 billion years is left out), and
  \<open>t.After(u)\<close> is the strict order of instants.
\<close>

type_synonym Time = int
type_synonym Duration = "64 word"

definition Second :: Duration where
  "Second = 1000000000"

definition Minute :: Duration where
  "Minute = 60 * Second"

definition time_Add :: "Time \<Rightarrow> Duration \<Rightarrow> Time" where
  "time_Add t d = t + sint d"

definition time_After :: "Time \<Rightarrow> Time \<Rightarrow> bool" where
  "time_After t u \<longleftrightarrow> u < t"

subsection \<open>Data\<close>

text \<open>
  A Go map is an association list: \<open>map_of\<close> reads a key, \<open>AList.update\<close> is the
  assignment \<open>m[k] = v\<close> and \<open>AList.delete\<close> is \<open>delete(m, k)\<close>. The order of the list
  is the order in which a \<open>range\<close> loop visits the entries, which Go leaves open; no
  theorem below depends on it. A Go map holds each key once (\<open>distinct (map fst m)\<close>, see
  \<open>wf_api\<close>).

  \<open>api.Rooms\<close> holds pointers to rooms. Every \<open>Room\<close> object is created by
  \<open>checkInHandler\<close> and stored under one key only, so a room is identified with the entry
  of its key, and a write through the pointer is an update of that entry (\<open>storeRoom\<close>).
  The two mutexes are left out of the records: a handler runs from start to end on the
  registry it is given.
\<close>

record User =
  ID :: string
  ExpiresAt :: Time

record Room =
  Name :: string
  Users :: "(string \<times> User) list"

record ConferenceAPI =
  Rooms :: "(string \<times> Room) list"

text \<open>The global \<open>api\<close> at program start: \<open>make(map[string]*Room)\<close>.\<close>

definition api_init :: ConferenceAPI where
  "api_init = \<lparr>Rooms = []\<rparr>"

text \<open>
  The request bodies after decoding. A field that the JSON text does not have keeps Go's
  zero value: the empty string, or 0 for \<open>expires_in\<close>. \<open>ExpiresIn\<close> is a Go \<open>int\<close>,
  taken as 64 bits wide.
\<close>

record CheckInRequest =
  UserID :: string
  RoomID :: string

record UpdatePresenceRequest =
  UserID :: string
  RoomID :: string
  ExpiresIn :: "64 word"

record RoomInfo =
  RoomID :: string
  UserIDs :: "string list"

text \<open>
  What a handler writes to the client, one constructor for each \<open>http.Error\<close> and each
  success message of the source:
  \<^item> \<open>BadFormat\<close>: status 400, the body could not be decoded;
  \<^item> \<open>FieldsRequired\<close>: status 400, \<open>user_id\<close> or \<open>room_id\<close> is empty;
  \<^item> \<open>RoomNotFound\<close>, \<open>UserNotFound\<close>: status 404;
  \<^item> \<open>CheckedIn u r\<close>, \<open>PresenceUpdated u r\<close>: status 200, the message names user and room;
  \<^item> \<open>RoomList infos\<close>: status 200, the JSON encoding of \<open>roomsInfo\<close> (the encoding
    itself is not part of the model; a slice that was never appended to is the empty list).
\<close>

datatype response =
    BadFormat
  | FieldsRequired
  | RoomNotFound
  | UserNotFound
  | CheckedIn string string
  | PresenceUpdated string string
  | RoomList "RoomInfo list"

fun statusCode :: "response \<Rightarrow> nat" where
  "statusCode BadFormat = 400"
| "statusCode FieldsRequired = 400"
| "statusCode RoomNotFound = 404"
| "statusCode UserNotFound = 404"
| "statusCode (CheckedIn u r) = 200"
| "statusCode (PresenceUpdated u r) = 200"
| "statusCode (RoomList infos) = 200"

subsection \<open>Access to the registry\<close>

definition findRoom :: "ConferenceAPI \<Rightarrow> string \<Rightarrow> Room option" where
  "findRoom api roomID = map_of (Rooms api) roomID"

definition findUser :: "ConferenceAPI \<Rightarrow> string \<Rightarrow> string \<Rightarrow> User option" where
  "findUser api roomID userID =
     (case findRoom api roomID of
        None \<Rightarrow> None
      | Some room \<Rightarrow> map_of (Users room) userID)"

text \<open>A write to the room object that \<open>api.Rooms[roomID]\<close> points to.\<close>

definition storeRoom :: "string \<Rightarrow> Room \<Rightarrow> ConferenceAPI \<Rightarrow> ConferenceAPI" where
  "storeRoom roomID room api = api\<lparr>Rooms := AList.update roomID room (Rooms api)\<rparr>"

subsection \<open>checkInHandler\<close>

text \<open>
  Lines 62 to 71, under \<open>api.RoomLock\<close>: look the room up and create it when it is not
  there. The result is the room and the registry that now holds it.
\<close>

definition ensureRoom :: "string \<Rightarrow> ConferenceAPI \<Rightarrow> Room \<times> ConferenceAPI" where
  "ensureRoom roomID api =
     (case map_of (Rooms api) roomID of
        Some room \<Rightarrow> (room, api)
      | None \<Rightarrow>
          (let room = \<lparr>Name = roomID, Users = []\<rparr>
           in (room, api\<lparr>Rooms := AList.update roomID room (Rooms api)\<rparr>)))"

definition checkInHandler ::
  "Time \<Rightarrow> CheckInRequest option \<Rightarrow> ConferenceAPI \<Rightarrow> response \<times> ConferenceAPI" where
  "checkInHandler now body api =
     (case body of
        None \<Rightarrow> (BadFormat, api)
      | Some req \<Rightarrow>
          if CheckInRequest.UserID req = [] \<or> CheckInRequest.RoomID req = []
          then (FieldsRequired, api)
          else
            (let expiresAt = time_Add now (5 * Minute);
                 user = \<lparr>ID = CheckInRequest.UserID req, ExpiresAt = expiresAt\<rparr>;
                 (room, api1) = ensureRoom (CheckInRequest.RoomID req) api;
                 room' = room\<lparr>Users := AList.update (CheckInRequest.UserID req) user (Users room)\<rparr>
             in (CheckedIn (CheckInRequest.UserID req) (CheckInRequest.RoomID req),
                 storeRoom (CheckInRequest.RoomID req) room' api1)))"

subsection \<open>updatePresenceHandler\<close>

text \<open>
  Lines 101 to 104: the duration that is added to the clock, from the request's
  \<open>expires_in\<close>. The comparison \<open>req.ExpiresIn > 0\<close> is signed, and the product with
  \<open>time.Second\<close> is an \<open>int64\<close> product. (The source reads \<open>time.Now()\<close> on line 101 and,
  when \<open>expires_in\<close> is positive, once more on line 103; \<open>now\<close> is the reading that
  goes into \<open>expiresAt\<close>.)
\<close>

definition refreshTTL :: "64 word \<Rightarrow> Duration" where
  "refreshTTL expiresIn = (if 0 <s expiresIn then expiresIn * Second else 5 * Minute)"

definition updatePresenceHandler ::
  "Time \<Rightarrow> UpdatePresenceRequest option \<Rightarrow> ConferenceAPI \<Rightarrow> response \<times> ConferenceAPI" where
  "updatePresenceHandler now body api =
     (case body of
        None \<Rightarrow> (BadFormat, api)
      | Some req \<Rightarrow>
          if UpdatePresenceRequest.UserID req = [] \<or> UpdatePresenceRequest.RoomID req = []
          then (FieldsRequired, api)
          else
            (let expiresAt = time_Add now (refreshTTL (ExpiresIn req))
             in case map_of (Rooms api) (UpdatePresenceRequest.RoomID req) of
                  None \<Rightarrow> (RoomNotFound, api)
                | Some room \<Rightarrow>
                    (case map_of (Users room) (UpdatePresenceRequest.UserID req) of
                       None \<Rightarrow> (UserNotFound, api)
                     | Some user \<Rightarrow>
                         (let user' = user\<lparr>ExpiresAt := expiresAt\<rparr>;
                              room' = room\<lparr>Users :=
                                AList.update (UpdatePresenceRequest.UserID req) user' (Users room)\<rparr>
                          in (PresenceUpdated (UpdatePresenceRequest.UserID req)
                                (UpdatePresenceRequest.RoomID req),
                              storeRoom (UpdatePresenceRequest.RoomID req) room' api)))))"

subsection \<open>listRoomsHandler\<close>

text \<open>
  The inner loop, lines 142 to 148. It runs over the entries of \<open>room.Users\<close> as they
  are when the loop starts and carries \<open>activeUsers\<close> and the map, from which it deletes.
  (Go does not visit an entry that was deleted before the loop reached it; the loop deletes
  the key it is at only, so in a map with distinct keys no such entry exists.)
  \<open>time.Now()\<close> is read anew at every entry: \<open>clock userID\<close> is the reading taken at the
  entry of \<open>userID\<close>.
\<close>

fun rangeUsers ::
  "(string \<Rightarrow> Time) \<Rightarrow> (string \<times> User) list \<Rightarrow>
   string list \<times> (string \<times> User) list \<Rightarrow> string list \<times> (string \<times> User) list" where
  "rangeUsers clock [] (activeUsers, users) = (activeUsers, users)"
| "rangeUsers clock ((userID, user) # rest) (activeUsers, users) =
     (if time_After (ExpiresAt user) (clock userID)
      then rangeUsers clock rest (activeUsers @ [userID], users)
      else rangeUsers clock rest (activeUsers, AList.delete userID users))"

text \<open>
  The outer loop, lines 139 to 155, over the entries of \<open>api.Rooms\<close>; it carries
  \<open>roomsInfo\<close> and the registry. \<open>clock roomID userID\<close> is the reading of \<open>time.Now()\<close>
  at the entry of \<open>userID\<close> in the room \<open>roomID\<close>.
\<close>

fun rangeRooms ::
  "(string \<Rightarrow> string \<Rightarrow> Time) \<Rightarrow> (string \<times> Room) list \<Rightarrow>
   RoomInfo list \<times> ConferenceAPI \<Rightarrow> RoomInfo list \<times> ConferenceAPI" where
  "rangeRooms clock [] (roomsInfo, api) = (roomsInfo, api)"
| "rangeRooms clock ((roomID, room) # rest) (roomsInfo, api) =
     (let (activeUsers, users') = rangeUsers (clock roomID) (Users room) ([], Users room);
          api' = storeRoom roomID (room\<lparr>Users := users'\<rparr>) api
      in rangeRooms clock rest
           (roomsInfo @ [\<lparr>RoomInfo.RoomID = roomID, UserIDs = activeUsers\<rparr>], api'))"

definition listRoomsHandler ::
  "(string \<Rightarrow> string \<Rightarrow> Time) \<Rightarrow> ConferenceAPI \<Rightarrow> response \<times> ConferenceAPI" where
  "listRoomsHandler clock api =
     (let (roomsInfo, api') = rangeRooms clock (Rooms api) ([], api)
      in (RoomList roomsInfo, api'))"

text \<open>A pass during which the clock stands at \<open>now\<close>.\<close>

definition listRoomsAt :: "Time \<Rightarrow> ConferenceAPI \<Rightarrow> response \<times> ConferenceAPI" where
  "listRoomsAt now api = listRoomsHandler (\<lambda>roomID userID. now) api"

text \<open>The user ids that a response lists for a room.\<close>

fun listedUsers :: "response \<Rightarrow> string \<Rightarrow> string list option" where
  "listedUsers (RoomList infos) roomID =
     map_option UserIDs (find (\<lambda>info. RoomInfo.RoomID info = roomID) infos)"
| "listedUsers _ roomID = None"

subsection \<open>Well-formed registries\<close>

text \<open>Every Go map of the registry holds each of its keys once.\<close>

definition wf_room :: "Room \<Rightarrow> bool" where
  "wf_room room \<longleftrightarrow> distinct (map fst (Users room))"

definition wf_api :: "ConferenceAPI \<Rightarrow> bool" where
  "wf_api api \<longleftrightarrow>
     distinct (map fst (Rooms api)) \<and> list_all (\<lambda>(roomID, room). wf_room room) (Rooms api)"

subsection \<open>The listing pass in closed form\<close>

text \<open>
  \<open>isActive clock\<close> is the test of line 143 on one entry. On a well-formed registry the
  two loops come to a filter of each room's entries (\<open>evictRoom\<close>) and the list of the
  keys that pass it (\<open>roomInfoOf\<close>); \<open>listRoomsHandler_map\<close> below proves it.
\<close>

definition isActive :: "(string \<Rightarrow> Time) \<Rightarrow> string \<times> User \<Rightarrow> bool" where
  "isActive clock = (\<lambda>(userID, user). time_After (ExpiresAt user) (clock userID))"

definition evictRoom :: "(string \<Rightarrow> string \<Rightarrow> Time) \<Rightarrow> string \<times> Room \<Rightarrow> string \<times> Room" where
  "evictRoom clock =
     (\<lambda>(roomID, room). (roomID, room\<lparr>Users := filter (isActive (clock roomID)) (Users room)\<rparr>))"

definition roomInfoOf :: "(string \<Rightarrow> string \<Rightarrow> Time) \<Rightarrow> string \<times> Room \<Rightarrow> RoomInfo" where
  "roomInfoOf clock =
     (\<lambda>(roomID, room).
        \<lparr>RoomInfo.RoomID = roomID,
         UserIDs = map fst (filter (isActive (clock roomID)) (Users room))\<rparr>)"

subsection \<open>The server\<close>

text \<open>
  \<open>main\<close> routes \<open>/checkin\<close>, \<open>/update_presence\<close> and \<open>/list_rooms\<close> to the three
  handlers. A \<open>request\<close> is one such call together with what the handler gets from outside
  the registry; \<open>run\<close> serves a list of requests one after the other.
\<close>

datatype request =
    CheckIn Time "CheckInRequest option"
  | UpdatePresence Time "UpdatePresenceRequest option"
  | ListRooms "string \<Rightarrow> string \<Rightarrow> Time"

fun serve :: "request \<Rightarrow> ConferenceAPI \<Rightarrow> response \<times> ConferenceAPI" where
  "serve (CheckIn now body) api = checkInHandler now body api"
| "serve (UpdatePresence now body) api = updatePresenceHandler now body api"
| "serve (ListRooms clock) api = listRoomsHandler clock api"

fun run :: "request list \<Rightarrow> ConferenceAPI \<Rightarrow> response list \<times> ConferenceAPI" where
  "run [] api = ([], api)"
| "run (rq # rqs) api =
     (let (resp, api1) = serve rq api;
          (resps, api2) = run rqs api1
      in (resp # resps, api2))"

text \<open>The registries that the server can be in: \<open>api_init\<close> and what requests make of it.\<close>

inductive reachable :: "ConferenceAPI \<Rightarrow> bool" where
  init: "reachable api_init"
| step: "reachable api \<Longrightarrow> serve rq api = (resp, api') \<Longrightarrow> reachable api'"

subsection \<open>Keys and fields\<close>

text \<open>
  A room carries its key in \<open>Name\<close> and a user carries its key in \<open>ID\<close>.
\<close>

definition users_consistent :: "Room \<Rightarrow> bool" where
  "users_consistent room \<longleftrightarrow> list_all (\<lambda>(userID, user). ID user = userID) (Users room)"

definition keys_consistent :: "ConferenceAPI \<Rightarrow> bool" where
  "keys_consistent api \<longleftrightarrow>
     list_all (\<lambda>(roomID, room). Name room = roomID \<and> users_consistent room) (Rooms api)"

text \<open>The room that line 63 finds, or the one that lines 65 to 68 make.\<close>

definition roomOrNew :: "ConferenceAPI \<Rightarrow> string \<Rightarrow> Room" where
  "roomOrNew api roomID =
     (case findRoom api roomID of Some room \<Rightarrow> room | None \<Rightarrow> \<lparr>Name = roomID, Users = []\<rparr>)"

subsection \<open>A registry to compute on\<close>

text \<open>
  Room \<open>r1\<close> holds alice until 300 and bob until 10; room \<open>r2\<close> holds carol until 5.
\<close>

definition example_r1 :: Room where
  "example_r1 =
     \<lparr>Name = ''r1'',
      Users = [(''alice'', \<lparr>ID = ''alice'', ExpiresAt = 300\<rparr>),
               (''bob'', \<lparr>ID = ''bob'', ExpiresAt = 10\<rparr>)]\<rparr>"

definition example_r2 :: Room where
  "example_r2 = \<lparr>Name = ''r2'', Users = [(''carol'', \<lparr>ID = ''carol'', ExpiresAt = 5\<rparr>)]\<rparr>"

definition example_api :: ConferenceAPI where
  "example_api = \<lparr>Rooms = [(''r1'', example_r1), (''r2'', example_r2)]\<rparr>"

subsection \<open>Check-ins that run at the same time\<close>

text \<open>
  Above, a handler runs from start to end before the next one begins. Here several calls of
  \<open>checkInHandler\<close> run side by side, interleaved statement by statement, from line 62 to
  line 75 (the lines before work on the request alone).

  Now a \<open>Room\<close> is an object with an address: \<open>objects\<close> holds the \<open>Room\<close> objects
  created so far, the address of an object is its index, and \<open>&Room{...}\<close> appends one.
  \<open>RoomPtrs\<close> is \<open>api.Rooms\<close>, from room ids to addresses. A mutex is a flag that says
  whether it is held: \<open>UserLock\<close> in every room, \<open>RoomLock\<close> in the registry.
  \<open>checkInHandler\<close> takes both for writing only.
\<close>

record LockedRoom = Room +
  UserLock :: bool

record Memory =
  objects :: "LockedRoom list"
  RoomPtrs :: "(string \<times> nat) list"
  RoomLock :: bool

definition mem_init :: Memory where
  "mem_init = \<lparr>objects = [], RoomPtrs = [], RoomLock = False\<rparr>"

text \<open>
  Where a handler is: \<open>L62\<close> before \<open>api.RoomLock.Lock()\<close>, \<open>L63\<close> before the lookup of
  lines 63 and 64, \<open>L65\<close> before \<open>&Room{...}\<close>, \<open>L69\<close> before the store into \<open>api.Rooms\<close>,
  \<open>L71\<close> before \<open>api.RoomLock.Unlock()\<close>, \<open>L73\<close> before \<open>room.UserLock.Lock()\<close>, \<open>L74\<close>
  before the store into \<open>room.Users\<close>, \<open>L75\<close> before \<open>room.UserLock.Unlock()\<close>, and
  \<open>L77\<close> after it. From \<open>L69\<close> on, the handler's variable \<open>room\<close> holds an address.
\<close>

datatype pc = L62 | L63 | L65 | L69 nat | L71 nat | L73 nat | L74 nat | L75 nat | L77 nat

record Handler =
  h_req :: CheckInRequest
  h_user :: User
  h_pc :: pc

text \<open>A handler that has passed lines 42 to 60 with a valid request at time \<open>now\<close>.\<close>

definition spawn :: "Time \<Rightarrow> CheckInRequest \<Rightarrow> Handler" where
  "spawn now req =
     \<lparr>h_req = req,
      h_user = \<lparr>ID = CheckInRequest.UserID req, ExpiresAt = time_Add now (5 * Minute)\<rparr>,
      h_pc = L62\<rparr>"

text \<open>
  One statement of one handler. \<open>Lock()\<close> on a mutex that is held does not return: the
  handler stays where it is. A Go pointer always points to its object; here an address that
  a handler holds is below \<open>length (objects m)\<close> in every state of a run (\<open>safe_roomOf\<close>
  below), so \<open>objects m ! p\<close> is that object.
\<close>

definition hstep :: "Handler \<Rightarrow> Memory \<Rightarrow> Handler \<times> Memory" where
  "hstep h m =
     (case h_pc h of
        L62 \<Rightarrow> if RoomLock m then (h, m) else (h\<lparr>h_pc := L63\<rparr>, m\<lparr>RoomLock := True\<rparr>)
      | L63 \<Rightarrow>
          (case map_of (RoomPtrs m) (CheckInRequest.RoomID (h_req h)) of
             Some p \<Rightarrow> (h\<lparr>h_pc := L71 p\<rparr>, m)
           | None \<Rightarrow> (h\<lparr>h_pc := L65\<rparr>, m))
      | L65 \<Rightarrow>
          (h\<lparr>h_pc := L69 (length (objects m))\<rparr>,
           m\<lparr>objects := objects m @
              [\<lparr>Name = CheckInRequest.RoomID (h_req h), Users = [], UserLock = False\<rparr>]\<rparr>)
      | L69 p \<Rightarrow>
          (h\<lparr>h_pc := L71 p\<rparr>,
           m\<lparr>RoomPtrs := AList.update (CheckInRequest.RoomID (h_req h)) p (RoomPtrs m)\<rparr>)
      | L71 p \<Rightarrow> (h\<lparr>h_pc := L73 p\<rparr>, m\<lparr>RoomLock := False\<rparr>)
      | L73 p \<Rightarrow>
          if UserLock (objects m ! p) then (h, m)
          else (h\<lparr>h_pc := L74 p\<rparr>,
                m\<lparr>objects := (objects m)[p := (objects m ! p)\<lparr>UserLock := True\<rparr>]\<rparr>)
      | L74 p \<Rightarrow>
          (h\<lparr>h_pc := L75 p\<rparr>,
           m\<lparr>objects := (objects m)[p := (objects m ! p)\<lparr>Users :=
              AList.update (CheckInRequest.UserID (h_req h)) (h_user h) (Users (objects m ! p))\<rparr>]\<rparr>)
      | L75 p \<Rightarrow>
          (h\<lparr>h_pc := L77 p\<rparr>,
           m\<lparr>objects := (objects m)[p := (objects m ! p)\<lparr>UserLock := False\<rparr>]\<rparr>)
      | L77 p \<Rightarrow> (h, m))"

text \<open>
  The scheduler lets handler \<open>i\<close> run one statement; a schedule is the list of its choices.
\<close>

definition step :: "nat \<Rightarrow> Handler list \<times> Memory \<Rightarrow> Handler list \<times> Memory" where
  "step i = (\<lambda>(hs, m).
     if i < length hs then (let (h', m') = hstep (hs ! i) m in (hs[i := h'], m')) else (hs, m))"

fun exec :: "nat list \<Rightarrow> Handler list \<times> Memory \<Rightarrow> Handler list \<times> Memory" where
  "exec [] c = c"
| "exec (i # sched) c = exec sched (step i c)"

text \<open>The places between \<open>api.RoomLock.Lock()\<close> and \<open>api.RoomLock.Unlock()\<close>.\<close>

fun inCS :: "pc \<Rightarrow> bool" where
  "inCS L63 = True"
| "inCS L65 = True"
| "inCS (L69 p) = True"
| "inCS (L71 p) = True"
| "inCS _ = False"

text \<open>The address in the handler's variable \<open>room\<close>, once it has one.\<close>

fun roomOf :: "pc \<Rightarrow> nat option" where
  "roomOf L62 = None"
| "roomOf L63 = None"
| "roomOf L65 = None"
| "roomOf (L69 p) = Some p"
| "roomOf (L71 p) = Some p"
| "roomOf (L73 p) = Some p"
| "roomOf (L74 p) = Some p"
| "roomOf (L75 p) = Some p"
| "roomOf (L77 p) = Some p"

text \<open>
  What holds in every state of such a run (\<open>safe\<close>): \<open>RoomLock\<close> is held exactly when a
  handler is between lines 62 and 71, and by one handler at most; an address in \<open>api.Rooms\<close>
  is the address of an object with that name; every object is in \<open>api.Rooms\<close> under its name,
  or is the one that the handler at \<open>L69\<close> has just made; and what a handler has seen of
  \<open>api.Rooms\<close> is still so (\<open>hinv\<close>).
\<close>

definition names :: "Memory \<Rightarrow> string list" where
  "names m = map Name (objects m)"

fun hinv :: "Memory \<Rightarrow> string \<Rightarrow> pc \<Rightarrow> bool" where
  "hinv m r L62 = True"
| "hinv m r L63 = True"
| "hinv m r L65 = (map_of (RoomPtrs m) r = None)"
| "hinv m r (L69 p) =
     (p < length (names m) \<and> names m ! p = r \<and> map_of (RoomPtrs m) r = None)"
| "hinv m r (L71 p) = (map_of (RoomPtrs m) r = Some p)"
| "hinv m r (L73 p) = (map_of (RoomPtrs m) r = Some p)"
| "hinv m r (L74 p) = (map_of (RoomPtrs m) r = Some p)"
| "hinv m r (L75 p) = (map_of (RoomPtrs m) r = Some p)"
| "hinv m r (L77 p) = (map_of (RoomPtrs m) r = Some p)"

definition lock_inv :: "Handler list \<Rightarrow> Memory \<Rightarrow> bool" where
  "lock_inv hs m \<longleftrightarrow> (RoomLock m \<longleftrightarrow> (\<exists>i<length hs. inCS (h_pc (hs ! i))))"

definition mutex :: "Handler list \<Rightarrow> bool" where
  "mutex hs \<longleftrightarrow>
     (\<forall>i<length hs. \<forall>j<length hs. inCS (h_pc (hs ! i)) \<and> inCS (h_pc (hs ! j)) \<longrightarrow> i = j)"

definition ptrs_inv :: "Memory \<Rightarrow> bool" where
  "ptrs_inv m \<longleftrightarrow>
     (\<forall>r p. map_of (RoomPtrs m) r = Some p \<longrightarrow> p < length (names m) \<and> names m ! p = r)"

definition objs_inv :: "Handler list \<Rightarrow> Memory \<Rightarrow> bool" where
  "objs_inv hs m \<longleftrightarrow>
     (\<forall>q<length (names m).
        map_of (RoomPtrs m) (names m ! q) = Some q \<or> (\<exists>i<length hs. h_pc (hs ! i) = L69 q))"

definition hs_inv :: "Handler list \<Rightarrow> Memory \<Rightarrow> bool" where
  "hs_inv hs m \<longleftrightarrow>
     (\<forall>i<length hs. hinv m (CheckInRequest.RoomID (h_req (hs ! i))) (h_pc (hs ! i)))"

definition safe :: "Handler list \<times> Memory \<Rightarrow> bool" where
  "safe = (\<lambda>(hs, m). lock_inv hs m \<and> mutex hs \<and> ptrs_inv m \<and> objs_inv hs m \<and> hs_inv hs m)"

text \<open>A handler past line 74 has its user id in the \<open>Users\<close> of its room.\<close>

definition written :: "Handler list \<Rightarrow> Memory \<Rightarrow> bool" where
  "written hs m \<longleftrightarrow>
     (\<forall>i<length hs. \<forall>p. h_pc (hs ! i) = L75 p \<or> h_pc (hs ! i) = L77 p \<longrightarrow>
        map_of (Users (objects m ! p)) (CheckInRequest.UserID (h_req (hs ! i))) \<noteq> None)"

text \<open>
  How far a handler is from the end: the number of statements it has still to run when it
  creates the room. \<open>finished\<close> is the place after line 75, \<open>remaining\<close> adds the ranks of
  all handlers, and a handler is \<open>enabled\<close> when its next statement takes it on (it is
  not waiting in a \<open>Lock()\<close> and is not through).
\<close>

fun rank :: "pc \<Rightarrow> nat" where
  "rank L62 = 8"
| "rank L63 = 7"
| "rank L65 = 6"
| "rank (L69 p) = 5"
| "rank (L71 p) = 4"
| "rank (L73 p) = 3"
| "rank (L74 p) = 2"
| "rank (L75 p) = 1"
| "rank (L77 p) = 0"

definition finished :: "Handler \<Rightarrow> bool" where
  "finished h \<longleftrightarrow> rank (h_pc h) = 0"

definition remaining :: "Handler list \<Rightarrow> nat" where
  "remaining hs = sum_list (map (\<lambda>h. rank (h_pc h)) hs)"

definition enabled :: "Handler \<Rightarrow> Memory \<Rightarrow> bool" where
  "enabled h m \<longleftrightarrow> rank (h_pc (fst (hstep h m))) < rank (h_pc h)"

text \<open>A \<open>UserLock\<close> that is held is held by a handler between lines 73 and 75.\<close>

definition ulock_inv :: "Handler list \<Rightarrow> Memory \<Rightarrow> bool" where
  "ulock_inv hs m \<longleftrightarrow>
     (\<forall>p<length (objects m). UserLock (objects m ! p) \<longrightarrow>
        (\<exists>j<length hs. h_pc (hs ! j) = L74 p \<or> h_pc (hs ! j) = L75 p))"

text \<open>Two check-ins into the same new room, and a schedule that lets them race.\<close>

definition example_handlers :: "Handler list" where
  "example_handlers =
     [spawn 3 \<lparr>CheckInRequest.UserID = ''alice'', CheckInRequest.RoomID = ''r1''\<rparr>,
      spawn 4 \<lparr>CheckInRequest.UserID = ''bob'', CheckInRequest.RoomID = ''r1''\<rparr>]"

definition example_schedule :: "nat list" where
  "example_schedule = [0, 1, 0, 1, 0, 1, 0, 0, 1, 1, 1, 0, 1, 0, 1, 0, 1, 1, 1]"

section \<open>Association lists with distinct keys\<close>

lemma delete_at:
  assumes "k \<notin> fst ` set pre" and "k \<notin> fst ` set rest"
  shows "AList.delete k (pre @ (k, v) # rest) = pre @ rest"
  using assms by (induction pre) auto

lemma update_at:
  "k \<notin> fst ` set pre \<Longrightarrow> AList.update k v' (pre @ (k, v) # rest) = pre @ (k, v') # rest"
  by (induction pre) auto

section \<open>The loops of listRoomsHandler\<close>

lemma rangeUsers_filter:
  "distinct (map fst (pre @ es)) \<Longrightarrow>
   rangeUsers clock es (acc, pre @ es) =
     (acc @ map fst (filter (isActive clock) es), pre @ filter (isActive clock) es)"
proof (induction es arbitrary: acc pre)
  case Nil
  then show ?case by simp
next
  case (Cons p es)
  obtain u e where p: "p = (u, e)" by (cases p)
  show ?case
  proof (cases "time_After (ExpiresAt e) (clock u)")
    case True
    have "distinct (map fst ((pre @ [(u, e)]) @ es))" using Cons.prems p by simp
    from Cons.IH [OF this, of "acc @ [u]"] True p show ?thesis
      by (simp add: isActive_def)
  next
    case False
    have d: "distinct (map fst (pre @ es))" using Cons.prems p by simp
    have "AList.delete u (pre @ (u, e) # es) = pre @ es"
      using Cons.prems p by (intro delete_at) auto
    with Cons.IH [OF d, of acc] False p show ?thesis
      by (simp add: isActive_def)
  qed
qed

lemma rangeUsers_room:
  "wf_room room \<Longrightarrow>
   rangeUsers clock (Users room) ([], Users room) =
     (map fst (filter (isActive clock) (Users room)), filter (isActive clock) (Users room))"
  using rangeUsers_filter [of "[]" "Users room" clock "[]"] by (simp add: wf_room_def)

lemma rangeRooms_map:
  "distinct (map fst (pre @ rs)) \<Longrightarrow> list_all (\<lambda>(roomID, room). wf_room room) rs \<Longrightarrow>
   rangeRooms clock rs (infos, \<lparr>Rooms = pre @ rs\<rparr>) =
     (infos @ map (roomInfoOf clock) rs, \<lparr>Rooms = pre @ map (evictRoom clock) rs\<rparr>)"
proof (induction rs arbitrary: infos pre)
  case Nil
  then show ?case by simp
next
  case (Cons p rs)
  obtain r room where p: "p = (r, room)" by (cases p)
  have wf: "wf_room room" using Cons.prems(2) p by simp
  have notin: "r \<notin> fst ` set pre" using Cons.prems(1) p by auto
  have d: "distinct (map fst ((pre @ [evictRoom clock (r, room)]) @ rs))"
    using Cons.prems(1) p by (simp add: evictRoom_def)
  have rest: "list_all (\<lambda>(roomID, room). wf_room room) rs" using Cons.prems(2) by simp
  show ?case
    using Cons.IH [OF d rest] p
    by (simp add: rangeUsers_room [OF wf] storeRoom_def update_at [OF notin]
        evictRoom_def roomInfoOf_def)
qed

lemma listRoomsHandler_map:
  assumes "wf_api api"
  shows "listRoomsHandler clock api =
     (RoomList (map (roomInfoOf clock) (Rooms api)),
      \<lparr>Rooms = map (evictRoom clock) (Rooms api)\<rparr>)"
proof -
  have eq: "\<lparr>Rooms = Rooms api\<rparr> = api" by simp
  have "rangeRooms clock (Rooms api) ([], api) =
     ([] @ map (roomInfoOf clock) (Rooms api),
      \<lparr>Rooms = [] @ map (evictRoom clock) (Rooms api)\<rparr>)"
    using rangeRooms_map [of "[]" "Rooms api" clock "[]"] assms
    by (simp add: wf_api_def eq)
  then show ?thesis by (simp add: listRoomsHandler_def)
qed

lemma map_of_filter_absent:
  "map_of xs k = None \<Longrightarrow> map_of (filter P xs) k = None"
  by (auto simp: map_of_eq_None_iff)

lemma map_of_filter_present:
  assumes "distinct (map fst xs)" and "map_of xs k = Some v"
  shows "map_of (filter P xs) k = (if P (k, v) then Some v else None)"
proof (cases "P (k, v)")
  case True
  have "(k, v) \<in> set (filter P xs)"
    using assms(2) True by (auto dest: map_of_SomeD)
  moreover have "distinct (map fst (filter P xs))"
    using assms(1) by (rule distinct_map_filter)
  ultimately show ?thesis using True by simp
next
  case False
  have "v' = v" if "(k, v') \<in> set xs" for v'
    using assms that by (auto dest: map_of_is_SomeI)
  then have "k \<notin> fst ` set (filter P xs)"
    using False by auto
  then show ?thesis using False by (simp add: map_of_eq_None_iff)
qed

lemma active_keys:
  "distinct (map fst xs) \<Longrightarrow>
   k \<in> set (map fst (filter P xs)) \<longleftrightarrow> (\<exists>v. map_of xs k = Some v \<and> P (k, v))"
  by (auto simp: image_iff dest: map_of_SomeD)

lemma list_all_update:
  "list_all P al \<Longrightarrow> P (k, v) \<Longrightarrow> list_all P (AList.update k v al)"
  by (induction al) auto

section \<open>What a listing pass leaves and returns\<close>

lemma map_of_evictRoom:
  "map_of (map (evictRoom clock) rs) r =
     map_option (\<lambda>room. room\<lparr>Users := filter (isActive (clock r)) (Users room)\<rparr>) (map_of rs r)"
  by (induction rs) (auto simp: evictRoom_def)

lemma find_roomInfoOf:
  "find (\<lambda>info. RoomInfo.RoomID info = r) (map (roomInfoOf clock) rs) =
     map_option (\<lambda>room. roomInfoOf clock (r, room)) (map_of rs r)"
  by (induction rs) (auto simp: roomInfoOf_def)

lemma fst_evictRoom: "fst (evictRoom clock p) = fst p"
  by (cases p) (simp add: evictRoom_def)

lemma evictRoom_idem: "evictRoom clock (evictRoom clock p) = evictRoom clock p"
  by (cases p) (simp add: evictRoom_def)

lemma roomInfoOf_evictRoom: "roomInfoOf clock (evictRoom clock p) = roomInfoOf clock p"
  by (cases p) (simp add: evictRoom_def roomInfoOf_def)

lemma wf_api_room:
  "wf_api api \<Longrightarrow> findRoom api r = Some room \<Longrightarrow> wf_room room"
  by (auto simp: wf_api_def findRoom_def list_all_iff dest: map_of_SomeD)

lemma listRooms_findRoom:
  "wf_api api \<Longrightarrow>
   findRoom (snd (listRoomsHandler clock api)) r =
     map_option (\<lambda>room. room\<lparr>Users := filter (isActive (clock r)) (Users room)\<rparr>) (findRoom api r)"
  by (simp add: listRoomsHandler_map findRoom_def map_of_evictRoom)

lemma listRooms_listed:
  "wf_api api \<Longrightarrow>
   listedUsers (fst (listRoomsHandler clock api)) r =
     map_option (\<lambda>room. map fst (filter (isActive (clock r)) (Users room))) (findRoom api r)"
proof -
  assume "wf_api api"
  then have "listedUsers (fst (listRoomsHandler clock api)) r =
      map_option UserIDs (map_option (\<lambda>room. roomInfoOf clock (r, room)) (map_of (Rooms api) r))"
    by (simp add: listRoomsHandler_map find_roomInfoOf)
  then show ?thesis
    by (simp add: findRoom_def option.map_comp comp_def roomInfoOf_def)
qed

lemma findUser_listRooms:
  assumes "wf_api api"
  shows "findUser (snd (listRoomsHandler clock api)) r u =
     (case findUser api r u of
        None \<Rightarrow> None
      | Some e \<Rightarrow> if clock r u < ExpiresAt e then Some e else None)"
proof (cases "findRoom api r")
  case None
  then show ?thesis by (simp add: findUser_def listRooms_findRoom [OF assms])
next
  case (Some room)
  have d: "distinct (map fst (Users room))"
    using wf_api_room [OF assms Some] by (simp add: wf_room_def)
  show ?thesis
  proof (cases "map_of (Users room) u")
    case None
    then show ?thesis
      using Some
      by (simp add: findUser_def listRooms_findRoom [OF assms] map_of_filter_absent)
  next
    case user: (Some e)
    show ?thesis
      using Some user
      by (simp add: findUser_def listRooms_findRoom [OF assms] map_of_filter_present [OF d user]
          isActive_def time_After_def)
  qed
qed

section \<open>What the two writing handlers do\<close>

lemma defaultTTL: "sint (5 * Minute) = 300000000000"
  by (simp add: Minute_def Second_def)

lemma time_Add_default: "time_Add now (5 * Minute) = now + 300000000000"
  by (simp add: time_Add_def defaultTTL)

lemma refreshTTL_in_range:
  assumes "0 < n" and "n \<le> 9223372036"
  shows "time_Add now (refreshTTL (word_of_int n)) = now + n * 1000000000"
proof -
  have n: "sint (word_of_int n :: 64 word) = n"
    using assms by (simp add: sint_sbintrunc' signed_take_bit_int_eq_self)
  have pos: "(0 :: 64 word) <s word_of_int n"
    using assms by (simp add: word_sless_alt n)
  have "- (2 ^ 63) \<le> n * 1000000000" and "n * 1000000000 < 2 ^ 63"
    using assms by simp_all
  then have "signed_take_bit 63 (n * 1000000000) = n * 1000000000"
    by (rule signed_take_bit_int_eq_self)
  then have "sint (word_of_int n * Second :: 64 word) = n * 1000000000"
    by (simp add: Second_def sint_word_mult n)
  with pos show ?thesis by (simp add: time_Add_def refreshTTL_def)
qed

lemma refreshTTL_default:
  assumes "sint expiresIn \<le> 0"
  shows "time_Add now (refreshTTL expiresIn) = now + 300000000000"
  using assms by (simp add: refreshTTL_def word_sless_alt time_Add_default)

lemma findRoom_storeRoom:
  "findRoom (storeRoom r room api) r' = (if r' = r then Some room else findRoom api r')"
  by (simp add: findRoom_def storeRoom_def update_conv')

lemma findUser_storeRoom:
  "findUser (storeRoom r room api) r' u =
     (if r' = r then map_of (Users room) u else findUser api r' u)"
  by (simp add: findUser_def findRoom_storeRoom)

lemma storeRoom_keys:
  "findRoom api r \<noteq> None \<Longrightarrow> map fst (Rooms (storeRoom r room api)) = map fst (Rooms api)"
  by (auto simp: storeRoom_def update_keys findRoom_def map_of_eq_None_iff)

lemma checkInHandler_valid:
  assumes "CheckInRequest.UserID req \<noteq> []" and "CheckInRequest.RoomID req \<noteq> []"
  shows "checkInHandler now (Some req) api =
     (CheckedIn (CheckInRequest.UserID req) (CheckInRequest.RoomID req),
      storeRoom (CheckInRequest.RoomID req)
        ((roomOrNew api (CheckInRequest.RoomID req))\<lparr>Users :=
            AList.update (CheckInRequest.UserID req)
              \<lparr>ID = CheckInRequest.UserID req, ExpiresAt = now + 300000000000\<rparr>
              (Users (roomOrNew api (CheckInRequest.RoomID req)))\<rparr>) api)"
  using assms
  by (simp add: checkInHandler_def ensureRoom_def roomOrNew_def findRoom_def storeRoom_def
      time_Add_default Let_def split: option.splits)

lemma findUser_checkIn:
  assumes "CheckInRequest.UserID req \<noteq> []" and "CheckInRequest.RoomID req \<noteq> []"
  shows "findUser (snd (checkInHandler now (Some req) api)) r u =
     (if r = CheckInRequest.RoomID req \<and> u = CheckInRequest.UserID req
      then Some \<lparr>ID = CheckInRequest.UserID req, ExpiresAt = now + 300000000000\<rparr>
      else findUser api r u)"
  by (simp add: checkInHandler_valid [OF assms] findUser_def findRoom_storeRoom update_conv'
      roomOrNew_def split: option.splits)

lemma updatePresenceHandler_valid:
  assumes "UpdatePresenceRequest.UserID req \<noteq> []" and "UpdatePresenceRequest.RoomID req \<noteq> []"
  shows "updatePresenceHandler now (Some req) api =
     (case findRoom api (UpdatePresenceRequest.RoomID req) of
        None \<Rightarrow> (RoomNotFound, api)
      | Some room \<Rightarrow>
          (case map_of (Users room) (UpdatePresenceRequest.UserID req) of
             None \<Rightarrow> (UserNotFound, api)
           | Some user \<Rightarrow>
               (PresenceUpdated (UpdatePresenceRequest.UserID req) (UpdatePresenceRequest.RoomID req),
                storeRoom (UpdatePresenceRequest.RoomID req)
                  (room\<lparr>Users := AList.update (UpdatePresenceRequest.UserID req)
                     (user\<lparr>ExpiresAt := time_Add now (refreshTTL (ExpiresIn req))\<rparr>)
                     (Users room)\<rparr>) api)))"
  using assms
  by (simp add: updatePresenceHandler_def findRoom_def Let_def split: option.splits)

lemma updatePresenceHandler_cases:
  obtains (failed) "snd (updatePresenceHandler now body api) = api"
      "\<forall>u r. fst (updatePresenceHandler now body api) \<noteq> PresenceUpdated u r"
  | (updated) req room user where "body = Some req"
      "findRoom api (UpdatePresenceRequest.RoomID req) = Some room"
      "map_of (Users room) (UpdatePresenceRequest.UserID req) = Some user"
      "updatePresenceHandler now body api =
         (PresenceUpdated (UpdatePresenceRequest.UserID req) (UpdatePresenceRequest.RoomID req),
          storeRoom (UpdatePresenceRequest.RoomID req)
            (room\<lparr>Users := AList.update (UpdatePresenceRequest.UserID req)
               (user\<lparr>ExpiresAt := time_Add now (refreshTTL (ExpiresIn req))\<rparr>)
               (Users room)\<rparr>) api)"
proof (cases body)
  case None
  then show ?thesis by (intro failed) (simp_all add: updatePresenceHandler_def)
next
  case (Some req)
  show ?thesis
  proof (cases "UpdatePresenceRequest.UserID req = [] \<or> UpdatePresenceRequest.RoomID req = []")
    case True
    then show ?thesis using Some by (intro failed) (auto simp: updatePresenceHandler_def)
  next
    case False
    then have valid: "UpdatePresenceRequest.UserID req \<noteq> []" "UpdatePresenceRequest.RoomID req \<noteq> []"
      by simp_all
    note eq = updatePresenceHandler_valid [OF valid, of now api]
    show ?thesis
    proof (cases "findRoom api (UpdatePresenceRequest.RoomID req)")
      case None
      then show ?thesis using Some eq by (intro failed) simp_all
    next
      case room: (Some room)
      show ?thesis
      proof (cases "map_of (Users room) (UpdatePresenceRequest.UserID req)")
        case None
        then show ?thesis using Some eq room by (intro failed) simp_all
      next
        case user: (Some user)
        show ?thesis using Some eq room user by (intro updated [of req room user]) simp_all
      qed
    qed
  qed
qed

section \<open>Sequences of requests\<close>

lemma fst_run_Cons:
  "fst (run (rq # rqs) api) = fst (serve rq api) # fst (run rqs (snd (serve rq api)))"
  by (simp add: split_beta)

lemma snd_run_Cons:
  "snd (run (rq # rqs) api) = snd (run rqs (snd (serve rq api)))"
  by (simp add: split_beta)

lemma run_append:
  "run (xs @ ys) api =
     (let (r1, api1) = run xs api; (r2, api2) = run ys api1 in (r1 @ r2, api2))"
  by (induction xs arbitrary: api) (auto simp: Let_def split: prod.splits)

section \<open>Invariants of the registry\<close>

lemma wf_room_filter: "wf_room room \<Longrightarrow> wf_room (room\<lparr>Users := filter P (Users room)\<rparr>)"
  by (simp add: wf_room_def distinct_map_filter)

lemma wf_room_update:
  "wf_room room \<Longrightarrow> wf_room (room\<lparr>Users := AList.update u e (Users room)\<rparr>)"
  by (simp add: wf_room_def distinct_update)

lemma wf_room_roomOrNew: "wf_api api \<Longrightarrow> wf_room (roomOrNew api r)"
  by (auto simp: roomOrNew_def wf_room_def split: option.splits dest: wf_api_room)

lemma wf_api_storeRoom:
  "wf_api api \<Longrightarrow> wf_room room \<Longrightarrow> wf_api (storeRoom r room api)"
  by (simp add: wf_api_def storeRoom_def distinct_update list_all_update)

lemma wf_api_checkIn: "wf_api api \<Longrightarrow> wf_api (snd (checkInHandler now body api))"
proof (cases body)
  case None
  then show "wf_api api \<Longrightarrow> ?thesis" by (simp add: checkInHandler_def)
next
  case (Some req)
  assume wf: "wf_api api"
  show ?thesis
  proof (cases "CheckInRequest.UserID req = [] \<or> CheckInRequest.RoomID req = []")
    case True
    then show ?thesis using wf Some by (auto simp: checkInHandler_def)
  next
    case False
    then show ?thesis
      using wf Some
      by (simp add: checkInHandler_valid wf_api_storeRoom wf_room_update wf_room_roomOrNew)
  qed
qed

lemma wf_api_updatePresence:
  assumes "wf_api api"
  shows "wf_api (snd (updatePresenceHandler now body api))"
proof (cases now body api rule: updatePresenceHandler_cases)
  case failed
  then show ?thesis using assms by simp
next
  case (updated req room user)
  have "wf_room room" using assms updated(2) by (rule wf_api_room)
  then show ?thesis
    using assms by (simp add: updated(4) wf_api_storeRoom wf_room_update)
qed

lemma wf_api_listRooms:
  assumes "wf_api api"
  shows "wf_api (snd (listRoomsHandler clock api))"
proof -
  have "list_all (\<lambda>(roomID, room). wf_room room) (map (evictRoom clock) rs)"
    if "list_all (\<lambda>(roomID, room). wf_room room) rs" for rs
    using that by (induction rs) (auto simp: evictRoom_def wf_room_filter)
  with assms show ?thesis
    by (simp add: listRoomsHandler_map wf_api_def comp_def fst_evictRoom)
qed

lemma wf_api_serve: "wf_api api \<Longrightarrow> wf_api (snd (serve rq api))"
  by (cases rq) (simp_all add: wf_api_checkIn wf_api_updatePresence wf_api_listRooms)

lemma keys_consistent_room:
  "keys_consistent api \<Longrightarrow> findRoom api r = Some room \<Longrightarrow> Name room = r \<and> users_consistent room"
  by (auto simp: keys_consistent_def findRoom_def list_all_iff dest: map_of_SomeD)

lemma users_consistent_user:
  "users_consistent room \<Longrightarrow> map_of (Users room) u = Some e \<Longrightarrow> ID e = u"
  by (auto simp: users_consistent_def list_all_iff dest: map_of_SomeD)

lemma users_consistent_update:
  "users_consistent room \<Longrightarrow> ID e = u \<Longrightarrow>
   users_consistent (room\<lparr>Users := AList.update u e (Users room)\<rparr>)"
  by (simp add: users_consistent_def list_all_update)

lemma roomOrNew_consistent:
  "keys_consistent api \<Longrightarrow> Name (roomOrNew api r) = r \<and> users_consistent (roomOrNew api r)"
  by (auto simp: roomOrNew_def users_consistent_def split: option.splits dest: keys_consistent_room)

lemma keys_consistent_storeRoom:
  "keys_consistent api \<Longrightarrow> Name room = r \<Longrightarrow> users_consistent room \<Longrightarrow>
   keys_consistent (storeRoom r room api)"
  by (simp add: keys_consistent_def storeRoom_def list_all_update)

lemma keys_consistent_checkIn:
  "keys_consistent api \<Longrightarrow> keys_consistent (snd (checkInHandler now body api))"
proof (cases body)
  case None
  then show "keys_consistent api \<Longrightarrow> ?thesis" by (simp add: checkInHandler_def)
next
  case (Some req)
  assume kc: "keys_consistent api"
  show ?thesis
  proof (cases "CheckInRequest.UserID req = [] \<or> CheckInRequest.RoomID req = []")
    case True
    then show ?thesis using kc Some by (auto simp: checkInHandler_def)
  next
    case False
    then show ?thesis
      using kc Some roomOrNew_consistent [OF kc, of "CheckInRequest.RoomID req"]
      by (simp add: checkInHandler_valid keys_consistent_storeRoom users_consistent_update)
  qed
qed

lemma keys_consistent_updatePresence:
  assumes "keys_consistent api"
  shows "keys_consistent (snd (updatePresenceHandler now body api))"
proof (cases now body api rule: updatePresenceHandler_cases)
  case failed
  then show ?thesis using assms by simp
next
  case (updated req room user)
  have room: "Name room = UpdatePresenceRequest.RoomID req" "users_consistent room"
    using keys_consistent_room [OF assms updated(2)] by simp_all
  have "ID user = UpdatePresenceRequest.UserID req"
    using room(2) updated(3) by (rule users_consistent_user)
  then show ?thesis
    using assms room
    by (simp add: updated(4) keys_consistent_storeRoom users_consistent_update)
qed

lemma keys_consistent_listRooms:
  assumes "wf_api api" and "keys_consistent api"
  shows "keys_consistent (snd (listRoomsHandler clock api))"
proof -
  have "list_all (\<lambda>(roomID, room). Name room = roomID \<and> users_consistent room)
          (map (evictRoom clock) rs)"
    if "list_all (\<lambda>(roomID, room). Name room = roomID \<and> users_consistent room) rs" for rs
    using that
    by (induction rs) (auto simp: evictRoom_def users_consistent_def list_all_iff)
  with assms show ?thesis
    by (simp add: listRoomsHandler_map keys_consistent_def)
qed

lemma serve_invariant:
  assumes "wf_api api \<and> keys_consistent api"
  shows "wf_api (snd (serve rq api)) \<and> keys_consistent (snd (serve rq api))"
  using assms
  by (cases rq)
    (simp_all add: wf_api_checkIn keys_consistent_checkIn wf_api_updatePresence
      keys_consistent_updatePresence wf_api_listRooms keys_consistent_listRooms)

lemma reachable_invariant: "reachable api \<Longrightarrow> wf_api api \<and> keys_consistent api"
proof (induction rule: reachable.induct)
  case init
  show ?case by (simp add: api_init_def wf_api_def keys_consistent_def)
next
  case (step api rq resp api')
  from serve_invariant [OF step.IH, of rq] step.hyps(2) show ?case by simp
qed

section \<open>Rooms stay\<close>

lemma findRoom_checkIn_keeps:
  assumes "findRoom api r \<noteq> None"
  shows "findRoom (snd (checkInHandler now body api)) r \<noteq> None"
proof (cases body)
  case None
  then show ?thesis using assms by (simp add: checkInHandler_def)
next
  case (Some req)
  show ?thesis
  proof (cases "CheckInRequest.UserID req = [] \<or> CheckInRequest.RoomID req = []")
    case True
    then show ?thesis using assms Some by (auto simp: checkInHandler_def)
  next
    case False
    then show ?thesis using assms Some by (simp add: checkInHandler_valid findRoom_storeRoom)
  qed
qed

lemma findRoom_updatePresence_keeps:
  assumes "findRoom api r \<noteq> None"
  shows "findRoom (snd (updatePresenceHandler now body api)) r \<noteq> None"
proof (cases now body api rule: updatePresenceHandler_cases)
  case failed
  then show ?thesis using assms by simp
next
  case (updated req room user)
  then show ?thesis using assms by (simp add: findRoom_storeRoom)
qed

lemma findRoom_serve_keeps:
  assumes "wf_api api" and "findRoom api r \<noteq> None"
  shows "findRoom (snd (serve rq api)) r \<noteq> None"
  using assms
  by (cases rq)
    (simp_all add: findRoom_checkIn_keeps findRoom_updatePresence_keeps listRooms_findRoom)

lemma findRoom_run_keeps:
  "wf_api api \<Longrightarrow> findRoom api r \<noteq> None \<Longrightarrow> findRoom (snd (run rqs api)) r \<noteq> None"
proof (induction rqs arbitrary: api)
  case Nil
  then show ?case by simp
next
  case (Cons rq rqs)
  show ?case
    unfolding snd_run_Cons
    using Cons.prems by (intro Cons.IH wf_api_serve findRoom_serve_keeps)
qed

section \<open>Interleaved check-ins keep one room per id\<close>

lemma names_simps:
  "names (m\<lparr>RoomLock := b\<rparr>) = names m"
  "names (m\<lparr>RoomPtrs := ps\<rparr>) = names m"
  "names (m\<lparr>objects := os\<rparr>) = map Name os"
  by (simp_all add: names_def)

lemma mutex_others:
  assumes "mutex hs" and "i < length hs" and "inCS (h_pc (hs ! i))"
    and "j < length hs" and "j \<noteq> i"
  shows "\<not> inCS (h_pc (hs ! j))"
  using assms unfolding mutex_def by blast

lemma hinv_frame:
  assumes "RoomPtrs m' = RoomPtrs m" and "names m' = names m"
  shows "hinv m' r pc = hinv m r pc"
  using assms by (cases pc) simp_all

lemma hinv_append:
  assumes "hinv m r pc" and "RoomPtrs m' = RoomPtrs m" and "names m' = names m @ xs"
  shows "hinv m' r pc"
  using assms by (cases pc) (simp_all add: nth_append)

lemma safe_parts:
  assumes "safe (hs, m)"
  shows "lock_inv hs m" and "mutex hs" and "ptrs_inv m" and "objs_inv hs m" and "hs_inv hs m"
  using assms by (simp_all add: safe_def)

lemma same_cs:
  assumes "i < length hs" and "inCS (h_pc h') \<longleftrightarrow> inCS (h_pc (hs ! i))"
  shows "lock_inv (hs[i := h']) m \<longleftrightarrow> lock_inv hs m" and "mutex (hs[i := h']) \<longleftrightarrow> mutex hs"
proof -
  have cs: "inCS (h_pc (hs[i := h'] ! j)) \<longleftrightarrow> inCS (h_pc (hs ! j))" if "j < length hs" for j
    using that assms by (cases "j = i") simp_all
  show "lock_inv (hs[i := h']) m \<longleftrightarrow> lock_inv hs m"
    using cs by (auto simp: lock_inv_def)
  show "mutex (hs[i := h']) \<longleftrightarrow> mutex hs"
    using cs by (auto simp: mutex_def)
qed

lemma lock_inv_cong: "RoomLock m' = RoomLock m \<Longrightarrow> lock_inv hs m' = lock_inv hs m"
  by (simp add: lock_inv_def)

lemma safe_frame:
  assumes inv: "safe (hs, m)" and i: "i < length hs"
    and ptrs: "RoomPtrs m' = RoomPtrs m" and nm: "names m' = names m"
    and lock: "RoomLock m' = RoomLock m"
    and req: "h_req h' = h_req (hs ! i)"
    and cs: "inCS (h_pc h') \<longleftrightarrow> inCS (h_pc (hs ! i))"
    and no69: "\<And>q. h_pc (hs ! i) \<noteq> L69 q"
    and h': "hinv m (CheckInRequest.RoomID (h_req (hs ! i))) (h_pc h')"
  shows "safe (hs[i := h'], m')"
proof -
  note parts = safe_parts [OF inv]
  have "lock_inv (hs[i := h']) m'"
    using parts(1) by (simp add: same_cs(1) [OF i cs] lock_inv_cong [OF lock])
  moreover have "mutex (hs[i := h'])"
    using parts(2) by (simp add: same_cs(2) [OF i cs])
  moreover have "ptrs_inv m'"
    using parts(3) by (simp add: ptrs_inv_def ptrs nm)
  moreover have "objs_inv (hs[i := h']) m'"
    unfolding objs_inv_def
  proof (intro allI impI)
    fix q assume q: "q < length (names m')"
    then have q': "q < length (names m)" by (simp add: nm)
    from parts(4) q' consider "map_of (RoomPtrs m) (names m ! q) = Some q"
      | j where "j < length hs" "h_pc (hs ! j) = L69 q"
      unfolding objs_inv_def by blast
    then show "map_of (RoomPtrs m') (names m' ! q) = Some q \<or>
        (\<exists>j<length (hs[i := h']). h_pc (hs[i := h'] ! j) = L69 q)"
    proof cases
      case 1
      then show ?thesis by (simp add: ptrs nm)
    next
      case 2
      then have "j \<noteq> i" using no69 by auto
      then have "h_pc (hs[i := h'] ! j) = L69 q" using 2 by simp
      then show ?thesis using 2(1) by auto
    qed
  qed
  moreover have "hs_inv (hs[i := h']) m'"
    unfolding hs_inv_def
  proof (intro allI impI)
    fix j assume "j < length (hs[i := h'])"
    then have j: "j < length hs" by simp
    show "hinv m' (CheckInRequest.RoomID (h_req (hs[i := h'] ! j))) (h_pc (hs[i := h'] ! j))"
    proof (cases "j = i")
      case True
      then show ?thesis using i h' by (simp add: req hinv_frame [OF ptrs nm])
    next
      case False
      then show ?thesis using parts(5) j by (simp add: hs_inv_def hinv_frame [OF ptrs nm])
    qed
  qed
  ultimately show ?thesis by (simp add: safe_def)
qed

lemma safe_acquire:
  assumes inv: "safe (hs, m)" and i: "i < length hs"
    and pc: "h_pc (hs ! i) = L62" and free: "\<not> RoomLock m"
  shows "safe (hs[i := (hs ! i)\<lparr>h_pc := L63\<rparr>], m\<lparr>RoomLock := True\<rparr>)"
proof -
  let ?hs = "hs[i := (hs ! i)\<lparr>h_pc := L63\<rparr>]" and ?m = "m\<lparr>RoomLock := True\<rparr>"
  note parts = safe_parts [OF inv]
  have nobody: "\<not> inCS (h_pc (hs ! j))" if "j < length hs" for j
    using parts(1) free that by (auto simp: lock_inv_def)
  have pcs: "h_pc (?hs ! j) = (if j = i then L63 else h_pc (hs ! j))" if "j < length hs" for j
    using that by (simp add: nth_list_update)
  have "lock_inv ?hs ?m"
    unfolding lock_inv_def using i pcs [OF i] by (auto intro!: exI [of _ i])
  moreover have "mutex ?hs"
    unfolding mutex_def using nobody pcs by (auto split: if_splits)
  moreover have "ptrs_inv ?m"
    using parts(3) by (simp add: ptrs_inv_def names_simps)
  moreover have "objs_inv ?hs ?m"
    unfolding objs_inv_def
  proof (intro allI impI)
    fix q assume "q < length (names ?m)"
    then have q: "q < length (names m)" by (simp add: names_simps)
    have "h_pc (hs ! j) \<noteq> L69 q" if "j < length hs" for j
      using nobody [OF that] by auto
    with parts(4) q have "map_of (RoomPtrs m) (names m ! q) = Some q"
      unfolding objs_inv_def by blast
    then show "map_of (RoomPtrs ?m) (names ?m ! q) = Some q \<or>
        (\<exists>j<length ?hs. h_pc (?hs ! j) = L69 q)"
      by (simp add: names_simps)
  qed
  moreover have "hs_inv ?hs ?m"
    unfolding hs_inv_def
  proof (intro allI impI)
    fix j assume "j < length ?hs"
    then have j: "j < length hs" by simp
    have "hinv ?m r c = hinv m r c" for r c
      by (rule hinv_frame) (simp_all add: names_simps)
    then show "hinv ?m (CheckInRequest.RoomID (h_req (?hs ! j))) (h_pc (?hs ! j))"
      using parts(5) j by (cases "j = i") (simp_all add: hs_inv_def)
  qed
  ultimately show ?thesis by (simp add: safe_def)
qed

lemma safe_release:
  assumes inv: "safe (hs, m)" and i: "i < length hs" and pc: "h_pc (hs ! i) = L71 p"
  shows "safe (hs[i := (hs ! i)\<lparr>h_pc := L73 p\<rparr>], m\<lparr>RoomLock := False\<rparr>)"
proof -
  let ?hs = "hs[i := (hs ! i)\<lparr>h_pc := L73 p\<rparr>]" and ?m = "m\<lparr>RoomLock := False\<rparr>"
  note parts = safe_parts [OF inv]
  have others: "\<not> inCS (h_pc (hs ! j))" if "j < length hs" "j \<noteq> i" for j
    using parts(2) i _ that by (rule mutex_others) (simp add: pc)
  have nobody: "\<not> inCS (h_pc (?hs ! j))" if "j < length hs" for j
    using that others [of j] by (cases "j = i") simp_all
  have "lock_inv ?hs ?m"
    unfolding lock_inv_def using nobody by simp
  moreover have "mutex ?hs"
    unfolding mutex_def using nobody by simp
  moreover have "ptrs_inv ?m"
    using parts(3) by (simp add: ptrs_inv_def names_simps)
  moreover have "objs_inv ?hs ?m"
    unfolding objs_inv_def
  proof (intro allI impI)
    fix q assume "q < length (names ?m)"
    then have q: "q < length (names m)" by (simp add: names_simps)
    have "h_pc (hs ! j) \<noteq> L69 q" if "j < length hs" for j
      using others [OF that] pc by (cases "j = i") auto
    with parts(4) q have "map_of (RoomPtrs m) (names m ! q) = Some q"
      unfolding objs_inv_def by blast
    then show "map_of (RoomPtrs ?m) (names ?m ! q) = Some q \<or>
        (\<exists>j<length ?hs. h_pc (?hs ! j) = L69 q)"
      by (simp add: names_simps)
  qed
  moreover have "hs_inv ?hs ?m"
    unfolding hs_inv_def
  proof (intro allI impI)
    fix j assume "j < length ?hs"
    then have j: "j < length hs" by simp
    have fr: "hinv ?m r c = hinv m r c" for r c
      by (rule hinv_frame) (simp_all add: names_simps)
    have "hinv m (CheckInRequest.RoomID (h_req (hs ! i))) (L71 p)"
      using parts(5) i pc by (auto simp: hs_inv_def)
    then show "hinv ?m (CheckInRequest.RoomID (h_req (?hs ! j))) (h_pc (?hs ! j))"
      using parts(5) j by (cases "j = i") (simp_all add: hs_inv_def fr)
  qed
  ultimately show ?thesis by (simp add: safe_def)
qed

lemma safe_alloc:
  assumes inv: "safe (hs, m)" and i: "i < length hs" and pc: "h_pc (hs ! i) = L65"
  shows "safe (hs[i := (hs ! i)\<lparr>h_pc := L69 (length (objects m))\<rparr>],
     m\<lparr>objects := objects m @
        [\<lparr>Name = CheckInRequest.RoomID (h_req (hs ! i)), Users = [], UserLock = False\<rparr>]\<rparr>)"
proof -
  let ?r = "CheckInRequest.RoomID (h_req (hs ! i))"
  let ?n = "length (objects m)"
  let ?hs = "hs[i := (hs ! i)\<lparr>h_pc := L69 ?n\<rparr>]"
  let ?m = "m\<lparr>objects := objects m @ [\<lparr>Name = ?r, Users = [], UserLock = False\<rparr>]\<rparr>"
  note parts = safe_parts [OF inv]
  have n: "length (names m) = ?n" by (simp add: names_def)
  have nm: "names ?m = names m @ [?r]" by (simp add: names_def)
  have ptrs: "RoomPtrs ?m = RoomPtrs m" by simp
  have cs: "inCS (h_pc ((hs ! i)\<lparr>h_pc := L69 ?n\<rparr>)) \<longleftrightarrow> inCS (h_pc (hs ! i))"
    by (simp add: pc)
  have unseen: "map_of (RoomPtrs m) ?r = None"
    using parts(5) i pc by (auto simp: hs_inv_def)
  have "lock_inv ?hs ?m"
    using parts(1) same_cs(1) [OF i cs, of m] lock_inv_cong [of ?m m ?hs] by simp
  moreover have "mutex ?hs"
    using parts(2) by (simp add: same_cs(2) [OF i cs])
  moreover have "ptrs_inv ?m"
    unfolding ptrs_inv_def
  proof (intro allI impI)
    fix r p assume "map_of (RoomPtrs ?m) r = Some p"
    then have "p < length (names m) \<and> names m ! p = r"
      using parts(3) by (simp add: ptrs_inv_def)
    then show "p < length (names ?m) \<and> names ?m ! p = r"
      by (simp add: nm nth_append)
  qed
  moreover have "objs_inv ?hs ?m"
    unfolding objs_inv_def
  proof (intro allI impI)
    fix q assume "q < length (names ?m)"
    then have "q < ?n \<or> q = ?n" by (auto simp: nm n)
    then show "map_of (RoomPtrs ?m) (names ?m ! q) = Some q \<or>
        (\<exists>j<length ?hs. h_pc (?hs ! j) = L69 q)"
    proof
      assume q: "q < ?n"
      from parts(4) q n consider "map_of (RoomPtrs m) (names m ! q) = Some q"
        | j where "j < length hs" "h_pc (hs ! j) = L69 q"
        unfolding objs_inv_def by auto
      then show ?thesis
      proof cases
        case 1
        then show ?thesis using q n by (simp add: nm nth_append)
      next
        case 2
        then have "j \<noteq> i" using pc by auto
        then have "h_pc (?hs ! j) = L69 q" using 2 by simp
        then show ?thesis using 2(1) by auto
      qed
    next
      assume "q = ?n"
      then have "h_pc (?hs ! i) = L69 q" using i by simp
      then show ?thesis using i by auto
    qed
  qed
  moreover have "hs_inv ?hs ?m"
    unfolding hs_inv_def
  proof (intro allI impI)
    fix j assume "j < length ?hs"
    then have j: "j < length hs" by simp
    show "hinv ?m (CheckInRequest.RoomID (h_req (?hs ! j))) (h_pc (?hs ! j))"
    proof (cases "j = i")
      case True
      then show ?thesis using i unseen by (simp add: nm n [symmetric])
    next
      case False
      have "hinv m (CheckInRequest.RoomID (h_req (hs ! j))) (h_pc (hs ! j))"
        using parts(5) j by (simp add: hs_inv_def)
      then have "hinv ?m (CheckInRequest.RoomID (h_req (hs ! j))) (h_pc (hs ! j))"
        using ptrs nm by (rule hinv_append)
      then show ?thesis using False by simp
    qed
  qed
  ultimately show ?thesis by (simp add: safe_def)
qed

lemma safe_store:
  assumes inv: "safe (hs, m)" and i: "i < length hs" and pc: "h_pc (hs ! i) = L69 p"
  shows "safe (hs[i := (hs ! i)\<lparr>h_pc := L71 p\<rparr>],
     m\<lparr>RoomPtrs := AList.update (CheckInRequest.RoomID (h_req (hs ! i))) p (RoomPtrs m)\<rparr>)"
proof -
  let ?r = "CheckInRequest.RoomID (h_req (hs ! i))"
  let ?hs = "hs[i := (hs ! i)\<lparr>h_pc := L71 p\<rparr>]"
  let ?m = "m\<lparr>RoomPtrs := AList.update ?r p (RoomPtrs m)\<rparr>"
  note parts = safe_parts [OF inv]
  have nm: "names ?m = names m" by (simp add: names_simps)
  have ptrs: "map_of (AList.update ?r p (RoomPtrs m)) r =
      (if r = ?r then Some p else map_of (RoomPtrs m) r)" for r
    by (simp add: update_conv')
  have cs: "inCS (h_pc ((hs ! i)\<lparr>h_pc := L71 p\<rparr>)) \<longleftrightarrow> inCS (h_pc (hs ! i))"
    by (simp add: pc)
  have mine: "p < length (names m)" "names m ! p = ?r" "map_of (RoomPtrs m) ?r = None"
    using parts(5) i pc by (auto simp: hs_inv_def)
  have others: "\<not> inCS (h_pc (hs ! j))" if "j < length hs" "j \<noteq> i" for j
    using parts(2) i _ that by (rule mutex_others) (simp add: pc)
  have "lock_inv ?hs ?m"
    using parts(1) same_cs(1) [OF i cs, of m] lock_inv_cong [of ?m m ?hs] by simp
  moreover have "mutex ?hs"
    using parts(2) by (simp add: same_cs(2) [OF i cs])
  moreover have "ptrs_inv ?m"
    using parts(3) mine by (auto simp: ptrs_inv_def nm ptrs)
  moreover have "objs_inv ?hs ?m"
    unfolding objs_inv_def
  proof (intro allI impI)
    fix q assume "q < length (names ?m)"
    then have q: "q < length (names m)" by (simp add: nm)
    from parts(4) q consider "map_of (RoomPtrs m) (names m ! q) = Some q"
      | j where "j < length hs" "h_pc (hs ! j) = L69 q"
      unfolding objs_inv_def by auto
    then have "map_of (RoomPtrs ?m) (names ?m ! q) = Some q"
    proof cases
      case 1
      then have "names m ! q \<noteq> ?r" using mine(3) by auto
      then show ?thesis using 1 by (simp add: nm ptrs)
    next
      case 2
      then have "j = i" using others [of j] by auto
      then have "q = p" using 2 pc by simp
      then show ?thesis using mine by (simp add: nm ptrs)
    qed
    then show "map_of (RoomPtrs ?m) (names ?m ! q) = Some q \<or>
        (\<exists>j<length ?hs. h_pc (?hs ! j) = L69 q)" ..
  qed
  moreover have "hs_inv ?hs ?m"
    unfolding hs_inv_def
  proof (intro allI impI)
    fix j assume "j < length ?hs"
    then have j: "j < length hs" by simp
    show "hinv ?m (CheckInRequest.RoomID (h_req (?hs ! j))) (h_pc (?hs ! j))"
    proof (cases "j = i")
      case True
      then show ?thesis using i by (simp add: ptrs)
    next
      case False
      have old: "hinv m (CheckInRequest.RoomID (h_req (hs ! j))) (h_pc (hs ! j))"
        using parts(5) j by (simp add: hs_inv_def)
      have "hinv ?m (CheckInRequest.RoomID (h_req (hs ! j))) (h_pc (hs ! j))"
        using old others [OF j False] mine(3)
        by (cases "h_pc (hs ! j)") (auto simp: ptrs)
      then show ?thesis using False by simp
    qed
  qed
  ultimately show ?thesis by (simp add: safe_def)
qed

lemma names_update_same:
  assumes "\<And>x. Name (f x) = Name x"
  shows "names (m\<lparr>objects := (objects m)[p := f (objects m ! p)]\<rparr>) = names m"
proof -
  have "map Name (os[p := f (os ! p)]) = map Name os" for os
    by (induction os arbitrary: p) (auto simp: assms split: nat.splits)
  then show ?thesis by (simp add: names_def)
qed

lemma step_outside:
  "\<not> i < length hs \<Longrightarrow> step i (hs, m) = (hs, m)"
  by (simp add: step_def)

lemma step_inside:
  "i < length hs \<Longrightarrow>
   step i (hs, m) = (hs[i := fst (hstep (hs ! i) m)], snd (hstep (hs ! i) m))"
  by (simp add: step_def split_beta)

lemma safe_step:
  assumes inv: "safe (hs, m)"
  shows "safe (step i (hs, m))"
proof (cases "i < length hs")
  case False
  then show ?thesis using inv by (simp add: step_outside)
next
  case i: True
  let ?h = "hs ! i"
  let ?r = "CheckInRequest.RoomID (h_req ?h)"
  have mine: "hinv m ?r (h_pc ?h)"
    using safe_parts(5) [OF inv] i by (simp add: hs_inv_def)
  show ?thesis
  proof (cases "h_pc ?h")
    case L62
    show ?thesis
    proof (cases "RoomLock m")
      case True
      then show ?thesis using inv i L62 by (simp add: step_inside hstep_def)
    next
      case False
      with safe_acquire [OF inv i L62] show ?thesis
        using i L62 by (simp add: step_inside hstep_def)
    qed
  next
    case L63
    show ?thesis
    proof (cases "map_of (RoomPtrs m) ?r")
      case None
      have "safe (hs[i := ?h\<lparr>h_pc := L65\<rparr>], m)"
        using inv i by (rule safe_frame) (simp_all add: L63 None)
      then show ?thesis using i L63 None by (simp add: step_inside hstep_def)
    next
      case (Some p)
      have "safe (hs[i := ?h\<lparr>h_pc := L71 p\<rparr>], m)"
        using inv i by (rule safe_frame) (simp_all add: L63 Some)
      then show ?thesis using i L63 Some by (simp add: step_inside hstep_def)
    qed
  next
    case L65
    with safe_alloc [OF inv i L65] show ?thesis
      using i by (simp add: step_inside hstep_def)
  next
    case (L69 p)
    with safe_store [OF inv i L69] show ?thesis
      using i by (simp add: step_inside hstep_def)
  next
    case (L71 p)
    with safe_release [OF inv i L71] show ?thesis
      using i by (simp add: step_inside hstep_def)
  next
    case (L73 p)
    show ?thesis
    proof (cases "UserLock (objects m ! p)")
      case True
      then show ?thesis using inv i L73 by (simp add: step_inside hstep_def)
    next
      case False
      let ?m = "m\<lparr>objects := (objects m)[p := (objects m ! p)\<lparr>UserLock := True\<rparr>]\<rparr>"
      have "names ?m = names m" by (rule names_update_same) simp
      with inv i have "safe (hs[i := ?h\<lparr>h_pc := L74 p\<rparr>], ?m)"
        using mine by (intro safe_frame) (simp_all add: L73)
      then show ?thesis using i L73 False by (simp add: step_inside hstep_def)
    qed
  next
    case (L74 p)
    let ?m = "m\<lparr>objects := (objects m)[p := (objects m ! p)\<lparr>Users :=
        AList.update (CheckInRequest.UserID (h_req ?h)) (h_user ?h) (Users (objects m ! p))\<rparr>]\<rparr>"
    have "names ?m = names m" by (rule names_update_same) simp
    with inv i have "safe (hs[i := ?h\<lparr>h_pc := L75 p\<rparr>], ?m)"
      using mine by (intro safe_frame) (simp_all add: L74)
    then show ?thesis using i L74 by (simp add: step_inside hstep_def)
  next
    case (L75 p)
    let ?m = "m\<lparr>objects := (objects m)[p := (objects m ! p)\<lparr>UserLock := False\<rparr>]\<rparr>"
    have "names ?m = names m" by (rule names_update_same) simp
    with inv i have "safe (hs[i := ?h\<lparr>h_pc := L77 p\<rparr>], ?m)"
      using mine by (intro safe_frame) (simp_all add: L75)
    then show ?thesis using i L75 by (simp add: step_inside hstep_def)
  next
    case (L77 p)
    then show ?thesis using inv i by (simp add: step_inside hstep_def)
  qed
qed

lemma safe_exec: "safe c \<Longrightarrow> safe (exec sched c)"
proof (induction sched arbitrary: c)
  case Nil
  then show ?case by simp
next
  case (Cons i sched)
  obtain hs m where c: "c = (hs, m)" by (cases c)
  have "safe (step i c)" using Cons.prems unfolding c by (rule safe_step)
  then show ?case by (simp add: Cons.IH)
qed

lemma safe_init:
  assumes "list_all (\<lambda>h. h_pc h = L62) hs"
  shows "safe (hs, mem_init)"
proof -
  have pc: "h_pc (hs ! i) = L62" if "i < length hs" for i
    using assms that by (simp add: list_all_length)
  show ?thesis
    by (simp add: safe_def lock_inv_def mutex_def ptrs_inv_def objs_inv_def hs_inv_def
        mem_init_def names_def pc)
qed

lemma safe_distinct_names:
  assumes inv: "safe (hs, m)"
  shows "distinct (names m)"
  unfolding distinct_conv_nth
proof (intro allI impI)
  fix q q' assume q: "q < length (names m)" and q': "q' < length (names m)" and ne: "q \<noteq> q'"
  note parts = safe_parts [OF inv]
  show "names m ! q \<noteq> names m ! q'"
  proof
    assume eq: "names m ! q = names m ! q'"
    have limbo: False
      if "a < length (names m)" "names m ! a = names m ! b"
        "map_of (RoomPtrs m) (names m ! b) = Some b" "j < length hs" "h_pc (hs ! j) = L69 a"
      for a b j
    proof -
      have "hinv m (CheckInRequest.RoomID (h_req (hs ! j))) (L69 a)"
        using parts(5) that(4,5) by (auto simp: hs_inv_def)
      then have "map_of (RoomPtrs m) (names m ! a) = None" by simp
      with that(2,3) show False by simp
    qed
    from parts(4) q consider (reg) "map_of (RoomPtrs m) (names m ! q) = Some q"
      | (lim) i where "i < length hs" "h_pc (hs ! i) = L69 q"
      unfolding objs_inv_def by blast
    then show False
    proof cases
      case reg
      from parts(4) q' consider (reg') "map_of (RoomPtrs m) (names m ! q') = Some q'"
        | (lim') j where "j < length hs" "h_pc (hs ! j) = L69 q'"
        unfolding objs_inv_def by blast
      then show False
      proof cases
        case reg'
        with reg eq ne show False by simp
      next
        case lim'
        from limbo [OF q' eq [symmetric] reg lim'] show False .
      qed
    next
      case lim
      from parts(4) q' consider (reg') "map_of (RoomPtrs m) (names m ! q') = Some q'"
        | (lim') j where "j < length hs" "h_pc (hs ! j) = L69 q'"
        unfolding objs_inv_def by blast
      then show False
      proof cases
        case reg'
        from limbo [OF q eq reg' lim] show False .
      next
        case lim'
        have "i = j"
          using parts(2) lim lim' unfolding mutex_def by auto
        with lim lim' ne show False by simp
      qed
    qed
  qed
qed

lemma safe_roomOf:
  assumes inv: "safe (hs, m)" and i: "i < length hs" and p: "roomOf (h_pc (hs ! i)) = Some p"
  shows "p < length (names m) \<and> names m ! p = CheckInRequest.RoomID (h_req (hs ! i))"
proof -
  note parts = safe_parts [OF inv]
  have h: "hinv m (CheckInRequest.RoomID (h_req (hs ! i))) (h_pc (hs ! i))"
    using parts(5) i by (simp add: hs_inv_def)
  show ?thesis
    using h p parts(3) by (cases "h_pc (hs ! i)") (auto simp: ptrs_inv_def)
qed

lemma count_distinct:
  "distinct (map f xs) \<Longrightarrow> length (filter (\<lambda>x. f x = a) xs) \<le> 1"
proof (induction xs)
  case Nil
  then show ?case by simp
next
  case (Cons x xs)
  show ?case
  proof (cases "f x = a")
    case True
    then have "a \<notin> f ` set xs" using Cons.prems by auto
    then have "filter (\<lambda>x. f x = a) xs = []" by (auto simp: filter_empty_conv)
    then show ?thesis using True by simp
  next
    case False
    then show ?thesis using Cons by simp
  qed
qed

lemma hstep_req: "h_req (fst (hstep h m)) = h_req h"
  by (simp add: hstep_def split: pc.splits option.splits)

lemma nth_update_at:
  "p < length xs \<Longrightarrow> xs[q := x] ! p = (if q = p then x else xs ! p)"
  by (cases "q = p") simp_all

lemma hstep_users_mono:
  assumes "p < length (objects m)" and "map_of (Users (objects m ! p)) u \<noteq> None"
  shows "map_of (Users (objects (snd (hstep h m)) ! p)) u \<noteq> None"
  using assms
  by (cases "h_pc h")
    (auto simp: hstep_def nth_append nth_update_at update_conv' split: option.splits)

lemma hstep_pc_L75:
  "h_pc (fst (hstep h m)) = L75 p \<longleftrightarrow> h_pc h = L74 p"
  by (cases "h_pc h") (auto simp: hstep_def split: option.splits)

lemma hstep_pc_L77:
  "h_pc (fst (hstep h m)) = L77 p \<longleftrightarrow> h_pc h = L75 p \<or> h_pc h = L77 p"
  by (cases "h_pc h") (auto simp: hstep_def split: option.splits)

lemma hstep_L74_writes:
  assumes "h_pc h = L74 p" and "p < length (objects m)"
  shows "map_of (Users (objects (snd (hstep h m)) ! p)) (CheckInRequest.UserID (h_req h)) \<noteq> None"
  using assms by (simp add: hstep_def update_conv')

lemma written_step:
  assumes inv: "safe (hs, m)" and w: "written hs m"
  shows "written (fst (step i (hs, m))) (snd (step i (hs, m)))"
proof (cases "i < length hs")
  case False
  then show ?thesis using w by (simp add: step_outside)
next
  case i: True
  let ?h' = "fst (hstep (hs ! i) m)" and ?m' = "snd (hstep (hs ! i) m)"
  have valid: "p < length (objects m)" if "j < length hs" "roomOf (h_pc (hs ! j)) = Some p" for j p
    using safe_roomOf [OF inv that] by (simp add: names_def)
  have "map_of (Users (objects ?m' ! p)) (CheckInRequest.UserID (h_req (hs[i := ?h'] ! j))) \<noteq> None"
    if j: "j < length hs" and pc: "h_pc (hs[i := ?h'] ! j) = L75 p \<or> h_pc (hs[i := ?h'] ! j) = L77 p"
    for j p
  proof (cases "j = i")
    case False
    then have old: "h_pc (hs ! j) = L75 p \<or> h_pc (hs ! j) = L77 p" using pc by simp
    then have "p < length (objects m)" using valid [OF j] by auto
    moreover have "map_of (Users (objects m ! p)) (CheckInRequest.UserID (h_req (hs ! j))) \<noteq> None"
      using w j old by (auto simp: written_def)
    ultimately show ?thesis using False by (simp add: hstep_users_mono)
  next
    case True
    then have "h_pc ?h' = L75 p \<or> h_pc ?h' = L77 p" using pc i by simp
    then consider "h_pc (hs ! i) = L74 p" | "h_pc (hs ! i) = L75 p \<or> h_pc (hs ! i) = L77 p"
      by (auto simp: hstep_pc_L75 hstep_pc_L77)
    then show ?thesis
    proof cases
      case 1
      then have "p < length (objects m)" using valid [OF i] by simp
      with 1 show ?thesis using True i by (simp add: hstep_req hstep_L74_writes)
    next
      case 2
      then have "p < length (objects m)" using valid [OF i] by auto
      moreover have "map_of (Users (objects m ! p)) (CheckInRequest.UserID (h_req (hs ! i))) \<noteq> None"
        using w i 2 by (auto simp: written_def)
      ultimately show ?thesis using True i by (simp add: hstep_req hstep_users_mono)
    qed
  qed
  then show ?thesis using i by (simp add: step_inside written_def)
qed

lemma step_reqs: "map h_req (fst (step i c)) = map h_req (fst c)"
proof (cases c)
  case (Pair hs m)
  show ?thesis
  proof (cases "i < length hs")
    case True
    then show ?thesis
      unfolding Pair by (simp add: step_inside map_update hstep_req list_update_same_conv)
  next
    case False
    then show ?thesis unfolding Pair by (simp add: step_outside)
  qed
qed

lemma exec_reqs: "map h_req (fst (exec sched c)) = map h_req (fst c)"
  by (induction sched arbitrary: c) (simp_all add: step_reqs)

lemma written_exec:
  "safe c \<Longrightarrow> written (fst c) (snd c) \<Longrightarrow>
   written (fst (exec sched c)) (snd (exec sched c))"
proof (induction sched arbitrary: c)
  case Nil
  then show ?case by simp
next
  case (Cons i sched)
  obtain hs m where c: "c = (hs, m)" by (cases c)
  have "safe (step i c)" using Cons.prems(1) unfolding c by (rule safe_step)
  moreover have "written (fst (step i c)) (snd (step i c))"
    using Cons.prems unfolding c by (simp add: written_step)
  ultimately show ?case by (simp add: Cons.IH)
qed

lemma example_run:
  "exec example_schedule (example_handlers, mem_init) =
     ([\<lparr>h_req = \<lparr>CheckInRequest.UserID = ''alice'', CheckInRequest.RoomID = ''r1''\<rparr>,
        h_user = \<lparr>ID = ''alice'', ExpiresAt = 300000000003\<rparr>, h_pc = L77 0\<rparr>,
       \<lparr>h_req = \<lparr>CheckInRequest.UserID = ''bob'', CheckInRequest.RoomID = ''r1''\<rparr>,
        h_user = \<lparr>ID = ''bob'', ExpiresAt = 300000000004\<rparr>, h_pc = L77 0\<rparr>],
      \<lparr>objects =
         [\<lparr>Name = ''r1'',
           Users = [(''alice'', \<lparr>ID = ''alice'', ExpiresAt = 300000000003\<rparr>),
                    (''bob'', \<lparr>ID = ''bob'', ExpiresAt = 300000000004\<rparr>)],
           UserLock = False\<rparr>],
       RoomPtrs = [(''r1'', 0)], RoomLock = False\<rparr>)"
  by code_simp

section \<open>Interleaved check-ins come to an end\<close>

lemma finished_L77: "finished h \<longleftrightarrow> (\<exists>p. h_pc h = L77 p)"
  by (cases "h_pc h") (simp_all add: finished_def)

lemma hstep_rank: "rank (h_pc (fst (hstep h m))) \<le> rank (h_pc h)"
  by (cases "h_pc h") (simp_all add: hstep_def split: option.splits)

lemma hstep_stutter:
  "rank (h_pc (fst (hstep h m))) = rank (h_pc h) \<Longrightarrow> hstep h m = (h, m)"
  by (cases "h_pc h") (auto simp: hstep_def split: option.splits if_splits)

lemma hstep_moves:
  assumes "h_pc h = L63 \<or> h_pc h = L65 \<or> h_pc h = L69 p \<or> h_pc h = L71 p \<or>
      h_pc h = L74 p \<or> h_pc h = L75 p \<or> (h_pc h = L62 \<and> \<not> RoomLock m) \<or>
      (h_pc h = L73 p \<and> \<not> UserLock (objects m ! p))"
  shows "enabled h m"
  using assms by (auto simp: enabled_def hstep_def split: option.splits)

lemma inCS_moves: "inCS (h_pc h) \<Longrightarrow> enabled h m"
  by (cases "h_pc h") (auto simp: enabled_def hstep_def split: option.splits)

lemma hstep_ulock:
  assumes "p < length (objects (snd (hstep h m)))"
    and "UserLock (objects (snd (hstep h m)) ! p)"
  shows "h_pc (fst (hstep h m)) = L74 p \<or>
     (p < length (objects m) \<and> UserLock (objects m ! p) \<and> h_pc h \<noteq> L75 p)"
  using assms
  by (cases "h_pc h")
    (auto simp: hstep_def nth_append nth_update_at split: option.splits if_splits)

lemma hstep_pc_L74:
  "h_pc h = L74 p \<Longrightarrow> h_pc (fst (hstep h m)) = L75 p"
  by (simp add: hstep_def)

lemma ulock_step:
  assumes u: "ulock_inv hs m"
  shows "ulock_inv (fst (step i (hs, m))) (snd (step i (hs, m)))"
proof (cases "i < length hs")
  case False
  then show ?thesis using u by (simp add: step_outside)
next
  case i: True
  let ?h' = "fst (hstep (hs ! i) m)" and ?m' = "snd (hstep (hs ! i) m)"
  have "\<exists>j<length hs. h_pc (hs[i := ?h'] ! j) = L74 p \<or> h_pc (hs[i := ?h'] ! j) = L75 p"
    if p: "p < length (objects ?m')" and l: "UserLock (objects ?m' ! p)" for p
  proof -
    from hstep_ulock [OF p l] consider "h_pc ?h' = L74 p"
      | "p < length (objects m)" "UserLock (objects m ! p)" "h_pc (hs ! i) \<noteq> L75 p"
      by blast
    then show ?thesis
    proof cases
      case 1
      then have "h_pc (hs[i := ?h'] ! i) = L74 p" using i by simp
      then show ?thesis using i by blast
    next
      case 2
      with u obtain j where j: "j < length hs" "h_pc (hs ! j) = L74 p \<or> h_pc (hs ! j) = L75 p"
        unfolding ulock_inv_def by blast
      show ?thesis
      proof (cases "j = i")
        case True
        then have "h_pc (hs ! i) = L74 p" using j 2(3) by simp
        then have "h_pc (hs[i := ?h'] ! i) = L75 p" using i by (simp add: hstep_pc_L74)
        then show ?thesis using i by blast
      next
        case False
        then have "h_pc (hs[i := ?h'] ! j) = h_pc (hs ! j)" by simp
        then show ?thesis using j by auto
      qed
    qed
  qed
  then show ?thesis using i by (simp add: step_inside ulock_inv_def)
qed

lemma ulock_exec:
  "ulock_inv (fst c) (snd c) \<Longrightarrow> ulock_inv (fst (exec sched c)) (snd (exec sched c))"
proof (induction sched arbitrary: c)
  case Nil
  then show ?case by simp
next
  case (Cons i sched)
  obtain hs m where c: "c = (hs, m)" by (cases c)
  have "ulock_inv (fst (step i c)) (snd (step i c))"
    using Cons.prems unfolding c by (simp add: ulock_step)
  then show ?case by (simp add: Cons.IH)
qed

lemma some_handler_moves:
  assumes inv: "safe (hs, m)" and u: "ulock_inv hs m"
    and i: "i < length hs" and nf: "\<not> finished (hs ! i)"
  shows "\<exists>j<length hs. enabled (hs ! j) m"
proof -
  consider (lock) "h_pc (hs ! i) = L62" "RoomLock m"
    | (ulock) p where "h_pc (hs ! i) = L73 p" "UserLock (objects m ! p)"
    | (free) p where "h_pc (hs ! i) = L63 \<or> h_pc (hs ! i) = L65 \<or> h_pc (hs ! i) = L69 p \<or>
        h_pc (hs ! i) = L71 p \<or> h_pc (hs ! i) = L74 p \<or> h_pc (hs ! i) = L75 p \<or>
        (h_pc (hs ! i) = L62 \<and> \<not> RoomLock m) \<or>
        (h_pc (hs ! i) = L73 p \<and> \<not> UserLock (objects m ! p))"
    using nf by (cases "h_pc (hs ! i)") (auto simp: finished_def)
  then show ?thesis
  proof cases
    case lock
    then obtain j where j: "j < length hs" "inCS (h_pc (hs ! j))"
      using safe_parts(1) [OF inv] by (auto simp: lock_inv_def)
    then have "enabled (hs ! j) m" by (simp add: inCS_moves)
    then show ?thesis using j(1) by blast
  next
    case ulock
    have "p < length (objects m)"
      using safe_roomOf [OF inv i, of p] ulock(1) by (simp add: names_def)
    with ulock(2) u obtain j where j: "j < length hs"
        "h_pc (hs ! j) = L74 p \<or> h_pc (hs ! j) = L75 p"
      unfolding ulock_inv_def by blast
    then have "enabled (hs ! j) m" by (intro hstep_moves) auto
    then show ?thesis using j(1) by blast
  next
    case free
    then have "enabled (hs ! i) m" by (rule hstep_moves)
    then show ?thesis using i by blast
  qed
qed

lemma remaining_update:
  "i < length hs \<Longrightarrow>
   remaining (hs[i := h']) + rank (h_pc (hs ! i)) = remaining hs + rank (h_pc h')"
  unfolding remaining_def
  by (induction hs arbitrary: i) (auto split: nat.splits)

lemma step_enabled:
  assumes "i < length hs" and "enabled (hs ! i) m"
  shows "remaining (fst (step i (hs, m))) < remaining hs"
  using remaining_update [OF assms(1), of "fst (hstep (hs ! i) m)"] assms
  by (simp add: step_inside enabled_def)

lemma step_stutters_or_moves:
  "step i (hs, m) = (hs, m) \<or> remaining (fst (step i (hs, m))) < remaining hs"
proof (cases "i < length hs")
  case False
  then show ?thesis by (simp add: step_outside)
next
  case i: True
  show ?thesis
  proof (cases "enabled (hs ! i) m")
    case True
    with i show ?thesis by (simp add: step_enabled)
  next
    case False
    then have "rank (h_pc (fst (hstep (hs ! i) m))) = rank (h_pc (hs ! i))"
      using hstep_rank [of "hs ! i" m] by (simp add: enabled_def)
    then have "hstep (hs ! i) m = (hs ! i, m)" by (rule hstep_stutter)
    then show ?thesis using i by (simp add: step_inside)
  qed
qed

lemma exec_append: "exec (xs @ ys) c = exec ys (exec xs c)"
  by (induction xs arbitrary: c) simp_all

lemma not_stuck:
  assumes "safe (hs, m)" and "ulock_inv hs m"
  shows "list_all finished hs \<or> (\<exists>j<length hs. step j (hs, m) \<noteq> (hs, m))"
proof (cases "list_all finished hs")
  case True
  then show ?thesis ..
next
  case False
  then obtain i where i: "i < length hs" "\<not> finished (hs ! i)"
    by (auto simp: list_all_length)
  from some_handler_moves [OF assms i]
  obtain j where j: "j < length hs" "enabled (hs ! j) m" by blast
  then have "remaining (fst (step j (hs, m))) < remaining hs" by (rule step_enabled)
  then have "step j (hs, m) \<noteq> (hs, m)" by auto
  then show ?thesis using j(1) by blast
qed

lemma completes:
  "safe c \<Longrightarrow> ulock_inv (fst c) (snd c) \<Longrightarrow> \<exists>sched. list_all finished (fst (exec sched c))"
proof (induction c rule: measure_induct_rule [where f = "\<lambda>c. remaining (fst c)"])
  case (less c)
  obtain hs m where c: "c = (hs, m)" by (cases c)
  show ?case
  proof (cases "list_all finished hs")
    case True
    then have "list_all finished (fst (exec [] c))" by (simp add: c)
    then show ?thesis ..
  next
    case False
    then obtain i where i: "i < length hs" "\<not> finished (hs ! i)"
      by (auto simp: list_all_length)
    have "safe (hs, m)" and "ulock_inv hs m"
      using less.prems by (simp_all add: c)
    from some_handler_moves [OF this i]
    obtain j where j: "j < length hs" "enabled (hs ! j) m" by blast
    have smaller: "remaining (fst (step j c)) < remaining (fst c)"
      unfolding c using j by (simp add: step_enabled)
    have "safe (step j c)"
      using less.prems(1) unfolding c by (rule safe_step)
    moreover have "ulock_inv (fst (step j c)) (snd (step j c))"
      using less.prems(2) unfolding c by (simp add: ulock_step)
    ultimately obtain sched where "list_all finished (fst (exec sched (step j c)))"
      using less.IH [OF smaller] by blast
    then have "list_all finished (fst (exec (j # sched) c))" by simp
    then show ?thesis ..
  qed
qed

lemma count_one:
  assumes "distinct (map f xs)" and "p < length xs" and "f (xs ! p) = a"
  shows "length (filter (\<lambda>x. f x = a) xs) = 1"
proof -
  have "xs ! p \<in> set (filter (\<lambda>x. f x = a) xs)"
    using assms(2,3) by simp
  then have "0 < length (filter (\<lambda>x. f x = a) xs)"
    by (rule length_pos_if_in_set)
  moreover have "length (filter (\<lambda>x. f x = a) xs) \<le> 1"
    using assms(1) by (rule count_distinct)
  ultimately show ?thesis by linarith
qed

lemma run_state:
  assumes "list_all (\<lambda>h. h_pc h = L62) hs0" and "exec sched (hs0, mem_init) = (hs, m)"
  shows "safe (hs, m)" and "written hs m" and "ulock_inv hs m"
    and "map h_req hs = map h_req hs0"
proof -
  have init: "safe (hs0, mem_init)" using assms(1) by (rule safe_init)
  have w0: "written hs0 mem_init"
    using assms(1) by (simp add: written_def list_all_length)
  have u0: "ulock_inv hs0 mem_init"
    by (simp add: ulock_inv_def mem_init_def)
  show "safe (hs, m)"
    using safe_exec [OF init, of sched] assms(2) by simp
  show "written hs m"
    using written_exec [OF init, of sched] w0 assms(2) by simp
  show "ulock_inv hs m"
    using ulock_exec [of "(hs0, mem_init)" sched] u0 assms(2) by simp
  show "map h_req hs = map h_req hs0"
    using exec_reqs [of sched "(hs0, mem_init)"] assms(2) by simp
qed

lemma through_facts:
  assumes inv: "safe (hs, m)" and w: "written hs m"
    and i: "i < length hs" and pc: "h_pc (hs ! i) = L77 p"
  shows "map_of (RoomPtrs m) (CheckInRequest.RoomID (h_req (hs ! i))) = Some p"
    and "p < length (objects m)"
    and "Name (objects m ! p) = CheckInRequest.RoomID (h_req (hs ! i))"
    and "length (filter (\<lambda>room. Name room = CheckInRequest.RoomID (h_req (hs ! i))) (objects m)) = 1"
    and "map_of (Users (objects m ! p)) (CheckInRequest.UserID (h_req (hs ! i))) \<noteq> None"
proof -
  have "hinv m (CheckInRequest.RoomID (h_req (hs ! i))) (L77 p)"
    using safe_parts(5) [OF inv] i pc by (auto simp: hs_inv_def)
  then show "map_of (RoomPtrs m) (CheckInRequest.RoomID (h_req (hs ! i))) = Some p" by simp
  have ptr: "p < length (names m) \<and> names m ! p = CheckInRequest.RoomID (h_req (hs ! i))"
    using inv i by (rule safe_roomOf) (simp add: pc)
  then show p: "p < length (objects m)"
    and n: "Name (objects m ! p) = CheckInRequest.RoomID (h_req (hs ! i))"
    by (auto simp: names_def)
  have "distinct (map Name (objects m))"
    using safe_distinct_names [OF inv] by (simp add: names_def)
  then show "length (filter (\<lambda>room. Name room = CheckInRequest.RoomID (h_req (hs ! i)))
      (objects m)) = 1"
    using p n by (rule count_one)
  show "map_of (Users (objects m ! p)) (CheckInRequest.UserID (h_req (hs ! i))) \<noteq> None"
    using w i pc by (auto simp: written_def)
qed

section \<open>The claims\<close>

subsection \<open>Eviction in listRoomsHandler\<close>

text \<open>
  Claim C1. In a listing pass over a well-formed registry, take any room and any entry of its
  user map, and let \<open>clock roomID userID\<close> be the reading of the clock at that entry. If the
  entry's \<open>ExpiresAt\<close> is at or before that reading, the entry is gone from the room's map after
  the pass and its user id is not in the list returned for the room; if \<open>ExpiresAt\<close> is
  strictly later, the entry is still in the map, unchanged, and its user id is in the list.
\<close>

theorem listRooms_evicts_expired:
  assumes "wf_api api"
    and "findRoom api roomID = Some room"
    and "map_of (Users room) userID = Some user"
    and "listRoomsHandler clock api = (resp, api')"
  shows "\<exists>room' ids. findRoom api' roomID = Some room' \<and> listedUsers resp roomID = Some ids \<and>
     (if ExpiresAt user \<le> clock roomID userID
      then map_of (Users room') userID = None \<and> userID \<notin> set ids
      else map_of (Users room') userID = Some user \<and> userID \<in> set ids)"
proof -
  let ?P = "isActive (clock roomID)"
  have d: "distinct (map fst (Users room))"
    using wf_api_room [OF assms(1,2)] by (simp add: wf_room_def)
  have room': "findRoom api' roomID = Some (room\<lparr>Users := filter ?P (Users room)\<rparr>)"
    using listRooms_findRoom [OF assms(1), of clock roomID] assms(2,4) by simp
  have ids: "listedUsers resp roomID = Some (map fst (filter ?P (Users room)))"
    using listRooms_listed [OF assms(1), of clock roomID] assms(2,4) by simp
  have P: "?P (userID, user) \<longleftrightarrow> \<not> ExpiresAt user \<le> clock roomID userID"
    by (auto simp: isActive_def time_After_def)
  have m: "map_of (filter ?P (Users room)) userID = (if ?P (userID, user) then Some user else None)"
    using d assms(3) by (rule map_of_filter_present)
  have k: "userID \<in> set (map fst (filter ?P (Users room))) \<longleftrightarrow> ?P (userID, user)"
    using active_keys [OF d, of userID ?P] assms(3) by simp
  show ?thesis using room' ids P m k by simp
qed

theorem listRooms_evicts_expired_witness:
  "wf_api example_api \<and>
   findRoom example_api ''r1'' = Some example_r1 \<and>
   map_of (Users example_r1) ''bob'' = Some \<lparr>ID = ''bob'', ExpiresAt = 10\<rparr> \<and>
   (\<exists>room' ids.
      findRoom (snd (listRoomsAt 10 example_api)) ''r1'' = Some room' \<and>
      listedUsers (fst (listRoomsAt 10 example_api)) ''r1'' = Some ids \<and>
      map_of (Users room') ''bob'' = None \<and> ''bob'' \<notin> set ids)"
proof -
  have wf: "wf_api example_api"
    by (simp add: wf_api_def wf_room_def example_api_def example_r1_def example_r2_def)
  have room: "findRoom example_api ''r1'' = Some example_r1"
    by (simp add: findRoom_def example_api_def)
  have user: "map_of (Users example_r1) ''bob'' = Some \<lparr>ID = ''bob'', ExpiresAt = 10\<rparr>"
    by (simp add: example_r1_def)
  have pass: "listRoomsHandler (\<lambda>roomID userID. 10) example_api =
      (fst (listRoomsAt 10 example_api), snd (listRoomsAt 10 example_api))"
    by (simp add: listRoomsAt_def)
  from listRooms_evicts_expired [OF wf room user pass] wf room user
  show ?thesis by simp
qed

subsection \<open>Repeated check-ins\<close>

text \<open>
  Claim C2. Serve any non-empty sequence of check-ins of one user id into one room (both ids
  non-empty), at the times \<open>nows\<close>, from any registry. Every one of them succeeds with the
  same confirmation, whether the user was in the room before or not, and the entry the room
  then holds for the user is the one the last call wrote: its \<open>ExpiresAt\<close> is the last time
  plus the default TTL of 300 seconds (in nanoseconds).
\<close>

theorem checkIn_last_write_wins:
  assumes "CheckInRequest.UserID req \<noteq> []" and "CheckInRequest.RoomID req \<noteq> []"
    and "nows \<noteq> []"
    and "run (map (\<lambda>now. CheckIn now (Some req)) nows) api = (resps, api')"
  shows "findUser api' (CheckInRequest.RoomID req) (CheckInRequest.UserID req) =
       Some \<lparr>ID = CheckInRequest.UserID req, ExpiresAt = last nows + 300000000000\<rparr> \<and>
     resps = map (\<lambda>now. CheckedIn (CheckInRequest.UserID req) (CheckInRequest.RoomID req)) nows"
proof -
  let ?ok = "CheckedIn (CheckInRequest.UserID req) (CheckInRequest.RoomID req)"
  have all_ok: "fst (run (map (\<lambda>now. CheckIn now (Some req)) ts) a) = map (\<lambda>now. ?ok) ts" for ts a
  proof (induction ts arbitrary: a)
    case Nil
    show ?case by simp
  next
    case (Cons t ts)
    show ?case
      unfolding list.map fst_run_Cons Cons.IH
      by (simp add: checkInHandler_valid [OF assms(1,2)])
  qed
  obtain ts t where ts: "nows = ts @ [t]"
    using assms(3) by (cases nows rule: rev_cases) auto
  obtain rs0 api0 where r0: "run (map (\<lambda>now. CheckIn now (Some req)) ts) api = (rs0, api0)"
    by (cases "run (map (\<lambda>now. CheckIn now (Some req)) ts) api")
  have "api' = snd (checkInHandler t (Some req) api0)"
    using assms(4) r0 by (simp add: ts run_append split: prod.splits)
  then have "findUser api' (CheckInRequest.RoomID req) (CheckInRequest.UserID req) =
       Some \<lparr>ID = CheckInRequest.UserID req, ExpiresAt = t + 300000000000\<rparr>"
    by (simp add: findUser_checkIn [OF assms(1,2)])
  moreover have "resps = map (\<lambda>now. ?ok) nows"
    using all_ok [of nows api] assms(4) by simp
  ultimately show ?thesis by (simp add: ts)
qed

theorem checkIn_last_write_wins_witness:
  "CheckInRequest.UserID \<lparr>CheckInRequest.UserID = ''alice'', CheckInRequest.RoomID = ''r1''\<rparr> \<noteq> [] \<and>
   CheckInRequest.RoomID \<lparr>CheckInRequest.UserID = ''alice'', CheckInRequest.RoomID = ''r1''\<rparr> \<noteq> [] \<and>
   [2, 9 :: Time] \<noteq> [] \<and>
   findUser
     (snd (run (map (\<lambda>now. CheckIn now
        (Some \<lparr>CheckInRequest.UserID = ''alice'', CheckInRequest.RoomID = ''r1''\<rparr>)) [2, 9]) example_api))
     ''r1'' ''alice'' = Some \<lparr>ID = ''alice'', ExpiresAt = 300000000009\<rparr>"
proof -
  let ?req = "\<lparr>CheckInRequest.UserID = ''alice'', CheckInRequest.RoomID = ''r1''\<rparr>"
  let ?rqs = "map (\<lambda>now. CheckIn now (Some ?req)) [2, 9]"
  have u: "CheckInRequest.UserID ?req \<noteq> []" and r: "CheckInRequest.RoomID ?req \<noteq> []"
    and n: "[2, 9 :: Time] \<noteq> []"
    by simp_all
  have e: "run ?rqs example_api = (fst (run ?rqs example_api), snd (run ?rqs example_api))"
    by simp
  from checkIn_last_write_wins [OF u r n e] u r n show ?thesis by simp
qed

subsection \<open>The answers of updatePresenceHandler\<close>

text \<open>
  Claim C3. For a refresh with non-empty user id and room id: the answer is \<open>RoomNotFound\<close>
  exactly when the registry has no room under the room id; when it has one, the answer is
  \<open>UserNotFound\<close> exactly when that room's map has no entry under the user id; and when there
  is an entry, whatever its \<open>ExpiresAt\<close> (so also one that has expired and was not yet
  evicted), the refresh succeeds and the entry's \<open>ExpiresAt\<close> is overwritten with the new
  expiry.
\<close>

theorem refresh_not_found:
  assumes "UpdatePresenceRequest.UserID req \<noteq> []" and "UpdatePresenceRequest.RoomID req \<noteq> []"
  shows "(fst (updatePresenceHandler now (Some req) api) = RoomNotFound \<longleftrightarrow>
            findRoom api (UpdatePresenceRequest.RoomID req) = None) \<and>
     (\<forall>room. findRoom api (UpdatePresenceRequest.RoomID req) = Some room \<longrightarrow>
        (fst (updatePresenceHandler now (Some req) api) = UserNotFound \<longleftrightarrow>
           map_of (Users room) (UpdatePresenceRequest.UserID req) = None)) \<and>
     (\<forall>user. findUser api (UpdatePresenceRequest.RoomID req) (UpdatePresenceRequest.UserID req) = Some user \<longrightarrow>
        fst (updatePresenceHandler now (Some req) api) =
          PresenceUpdated (UpdatePresenceRequest.UserID req) (UpdatePresenceRequest.RoomID req) \<and>
        findUser (snd (updatePresenceHandler now (Some req) api))
            (UpdatePresenceRequest.RoomID req) (UpdatePresenceRequest.UserID req) =
          Some (user\<lparr>ExpiresAt := time_Add now (refreshTTL (ExpiresIn req))\<rparr>))"
  by (auto simp: updatePresenceHandler_valid [OF assms] findUser_def findRoom_storeRoom
      update_conv' split: option.splits)

theorem refresh_not_found_witness:
  "UpdatePresenceRequest.UserID
     \<lparr>UpdatePresenceRequest.UserID = ''bob'', UpdatePresenceRequest.RoomID = ''r1'', ExpiresIn = 10\<rparr> \<noteq> [] \<and>
   UpdatePresenceRequest.RoomID
     \<lparr>UpdatePresenceRequest.UserID = ''bob'', UpdatePresenceRequest.RoomID = ''r1'', ExpiresIn = 10\<rparr> \<noteq> [] \<and>
   findUser example_api ''r1'' ''bob'' = Some \<lparr>ID = ''bob'', ExpiresAt = 10\<rparr> \<and>
   fst (updatePresenceHandler 12
     (Some \<lparr>UpdatePresenceRequest.UserID = ''bob'', UpdatePresenceRequest.RoomID = ''r1'', ExpiresIn = 10\<rparr>)
     example_api) = PresenceUpdated ''bob'' ''r1'' \<and>
   findUser (snd (updatePresenceHandler 12
     (Some \<lparr>UpdatePresenceRequest.UserID = ''bob'', UpdatePresenceRequest.RoomID = ''r1'', ExpiresIn = 10\<rparr>)
     example_api)) ''r1'' ''bob'' = Some \<lparr>ID = ''bob'', ExpiresAt = 10000000012\<rparr>"
proof -
  let ?req = "\<lparr>UpdatePresenceRequest.UserID = ''bob'', UpdatePresenceRequest.RoomID = ''r1'', ExpiresIn = 10\<rparr>"
  have u: "UpdatePresenceRequest.UserID ?req \<noteq> []" and r: "UpdatePresenceRequest.RoomID ?req \<noteq> []"
    by simp_all
  have found: "findUser example_api ''r1'' ''bob'' = Some \<lparr>ID = ''bob'', ExpiresAt = 10\<rparr>"
    by (simp add: findUser_def findRoom_def example_api_def example_r1_def)
  have ttl: "time_Add 12 (refreshTTL 10) = 10000000012"
    by (simp add: time_Add_def refreshTTL_def Second_def word_sless_alt)
  from refresh_not_found [OF u r, of 12 example_api] u r found ttl show ?thesis by simp
qed

subsection \<open>The expiry of a refresh\<close>

text \<open>
  Claim C4, at the refresh of bob in \<open>r1\<close> at time 12 with \<open>expires_in = 9223372037\<close>, a
  strictly positive number of seconds. The claim asks for the expiry
  \<open>12 + 9223372037 * 1000000000\<close>. The product \<open>time.Duration(req.ExpiresIn) * time.Second\<close>
  of line 103 wraps around in \<open>int64\<close>, and the handler stores an expiry some 292 years
  before \<open>now\<close>. (\<open>findUser_checkIn\<close>, \<open>refreshTTL_in_range\<close> and \<open>refreshTTL_default\<close>
  above are the parts of the claim that hold: the check-in, a refresh of 1 to 9223372036
  seconds, and a refresh whose \<open>expires_in\<close> is zero, negative or absent.)
\<close>

theorem refresh_ttl_wraps:
  "(0 :: 64 word) <s 9223372037 \<and>
   updatePresenceHandler 12
     (Some \<lparr>UpdatePresenceRequest.UserID = ''bob'', UpdatePresenceRequest.RoomID = ''r1'',
            ExpiresIn = 9223372037\<rparr>) example_api =
     (PresenceUpdated ''bob'' ''r1'',
      \<lparr>Rooms =
         [(''r1'', \<lparr>Name = ''r1'',
              Users = [(''alice'', \<lparr>ID = ''alice'', ExpiresAt = 300\<rparr>),
                       (''bob'', \<lparr>ID = ''bob'', ExpiresAt = - 9223372036709551604\<rparr>)]\<rparr>),
          (''r2'', example_r2)]\<rparr>)"
  by (simp add: updatePresenceHandler_def refreshTTL_def time_Add_def Second_def word_sless_alt
      storeRoom_def example_api_def example_r1_def)

subsection \<open>A second listing pass\<close>

text \<open>
  Claim C5. After a listing pass at \<open>now\<close> over a well-formed registry, no entry that is left
  has an \<open>ExpiresAt\<close> at or before \<open>now\<close>; a second pass at the same \<open>now\<close> leaves the
  registry as the first pass left it, and lists the same set of user ids for every room.
\<close>

theorem listRooms_idempotent:
  assumes "wf_api api"
    and "listRoomsAt now api = (resp1, api1)"
    and "listRoomsAt now api1 = (resp2, api2)"
  shows "api2 = api1 \<and>
     (\<forall>r u e. findUser api1 r u = Some e \<longrightarrow> now < ExpiresAt e) \<and>
     (\<forall>r. map_option set (listedUsers resp2 r) = map_option set (listedUsers resp1 r))"
proof -
  let ?c = "\<lambda>(roomID :: string) (userID :: string). now"
  have r1: "resp1 = RoomList (map (roomInfoOf ?c) (Rooms api))"
    and a1: "api1 = \<lparr>Rooms = map (evictRoom ?c) (Rooms api)\<rparr>"
    using assms(1,2) by (simp_all add: listRoomsAt_def listRoomsHandler_map)
  have wf1: "wf_api api1"
    using wf_api_listRooms [OF assms(1), of ?c] assms(2) by (simp add: listRoomsAt_def)
  have r2: "resp2 = RoomList (map (roomInfoOf ?c) (Rooms api1))"
    and a2: "api2 = \<lparr>Rooms = map (evictRoom ?c) (Rooms api1)\<rparr>"
    using wf1 assms(3) by (simp_all add: listRoomsAt_def listRoomsHandler_map)
  have same_state: "api2 = api1"
    by (simp add: a2 a1 evictRoom_idem)
  have same_resp: "resp2 = resp1"
    by (simp add: r2 r1 a1 roomInfoOf_evictRoom)
  have gone: "now < ExpiresAt e" if "findUser api1 r u = Some e" for r u e
  proof -
    have "findUser api1 r u =
        (case findUser api r u of None \<Rightarrow> None
         | Some e \<Rightarrow> if now < ExpiresAt e then Some e else None)"
      using findUser_listRooms [OF assms(1), of ?c r u] assms(2) by (simp add: listRoomsAt_def)
    with that show ?thesis by (auto split: option.splits if_splits)
  qed
  show ?thesis using same_state same_resp gone by blast
qed

theorem listRooms_idempotent_witness:
  "wf_api example_api \<and>
   snd (listRoomsAt 10 (snd (listRoomsAt 10 example_api))) = snd (listRoomsAt 10 example_api) \<and>
   map_option set (listedUsers (fst (listRoomsAt 10 (snd (listRoomsAt 10 example_api)))) ''r1'') =
     map_option set (listedUsers (fst (listRoomsAt 10 example_api)) ''r1'')"
proof -
  have wf: "wf_api example_api"
    by (simp add: wf_api_def wf_room_def example_api_def example_r1_def example_r2_def)
  let ?p1 = "listRoomsAt 10 example_api"
  let ?p2 = "listRoomsAt 10 (snd ?p1)"
  have p1: "?p1 = (fst ?p1, snd ?p1)" and p2: "?p2 = (fst ?p2, snd ?p2)"
    by simp_all
  from listRooms_idempotent [OF wf p1 p2] wf show ?thesis by blast
qed

subsection \<open>Rooms persist\<close>

text \<open>
  Claim C6. A room that a well-formed registry holds is still there after any sequence of
  requests. In a listing pass the room is in the output, with a list that holds the keys of
  the room's map as the pass leaves it; when the pass leaves no entry, the list is empty.
\<close>

theorem rooms_never_deleted:
  assumes "wf_api api" and "findRoom api r \<noteq> None"
  shows "findRoom (snd (run rqs api)) r \<noteq> None \<and>
     (\<exists>room' ids. findRoom (snd (listRoomsHandler clock api)) r = Some room' \<and>
        listedUsers (fst (listRoomsHandler clock api)) r = Some ids \<and>
        set ids = fst ` set (Users room') \<and>
        (Users room' = [] \<longrightarrow> ids = []))"
proof -
  obtain room where room: "findRoom api r = Some room" using assms(2) by auto
  show ?thesis
    using findRoom_run_keeps [OF assms, of rqs] room
    by (simp add: listRooms_findRoom [OF assms(1)] listRooms_listed [OF assms(1)])
qed

theorem rooms_never_deleted_witness:
  "wf_api example_api \<and> findRoom example_api ''r2'' \<noteq> None \<and>
   findRoom (snd (run [ListRooms (\<lambda>roomID userID. 10), ListRooms (\<lambda>roomID userID. 400)] example_api)) ''r2''
     \<noteq> None \<and>
   findRoom (snd (listRoomsHandler (\<lambda>roomID userID. 10) example_api)) ''r2'' =
     Some \<lparr>Name = ''r2'', Users = []\<rparr> \<and>
   listedUsers (fst (listRoomsHandler (\<lambda>roomID userID. 10) example_api)) ''r2'' = Some []"
proof -
  have wf: "wf_api example_api"
    by (simp add: wf_api_def wf_room_def example_api_def example_r1_def example_r2_def)
  have room: "findRoom example_api ''r2'' \<noteq> None"
    by (simp add: findRoom_def example_api_def)
  have after: "findRoom (snd (listRoomsHandler (\<lambda>roomID userID. 10) example_api)) ''r2'' =
      Some \<lparr>Name = ''r2'', Users = []\<rparr>"
    unfolding listRooms_findRoom [OF wf]
    by (simp add: findRoom_def example_api_def example_r2_def isActive_def time_After_def)
  from rooms_never_deleted [OF wf room,
      of "[ListRooms (\<lambda>roomID userID. 10), ListRooms (\<lambda>roomID userID. 400)]" "\<lambda>roomID userID. 10"]
    wf room after
  show ?thesis by auto
qed

subsection \<open>One room object for one room id\<close>

text \<open>
  Claim C7. Let any number of check-ins start, with any room ids, on the empty registry, and
  let them run interleaved under any schedule. In every state of the run:
  \<^item> of every room id there is at most one \<open>Room\<close> object;
  \<^item> a handler that has a room in hand has an object that carries the room id of its
    request, so any two handlers of one room id have the same object in hand;
  \<^item> a handler that is through has found its object in \<open>api.Rooms\<close> under its room id and
    has its user id in that object's \<open>Users\<close>;
  \<^item> either all handlers are through, or some handler can run its next statement (no
    deadlock), and a statement that runs brings \<open>remaining\<close> down (so at most eight
    statements run per handler);
  \<^item> the run can be continued to a state where all N handlers are through, and there every
    handler has in hand the object that \<open>api.Rooms\<close> holds under its room id, that object
    is the one and only \<open>Room\<close> object of this room id, and the handler's user id is in its
    \<open>Users\<close>.
  So N check-ins of one new room id make exactly one \<open>Room\<close> object, and all N find it and
  write to it.
\<close>

theorem concurrent_checkIn_one_room:
  assumes "list_all (\<lambda>h. h_pc h = L62) hs0"
    and "exec sched (hs0, mem_init) = (hs, m)"
  shows "map h_req hs = map h_req hs0 \<and>
     (\<forall>r. length (filter (\<lambda>room. Name room = r) (objects m)) \<le> 1) \<and>
     (\<forall>i<length hs. \<forall>p. roomOf (h_pc (hs ! i)) = Some p \<longrightarrow>
        p < length (objects m) \<and> Name (objects m ! p) = CheckInRequest.RoomID (h_req (hs ! i))) \<and>
     (\<forall>i<length hs. \<forall>j<length hs. \<forall>p p'.
        roomOf (h_pc (hs ! i)) = Some p \<and> roomOf (h_pc (hs ! j)) = Some p' \<and>
        CheckInRequest.RoomID (h_req (hs ! i)) = CheckInRequest.RoomID (h_req (hs ! j)) \<longrightarrow> p = p') \<and>
     (\<forall>i<length hs. \<forall>p. h_pc (hs ! i) = L77 p \<longrightarrow>
        map_of (RoomPtrs m) (CheckInRequest.RoomID (h_req (hs ! i))) = Some p \<and>
        map_of (Users (objects m ! p)) (CheckInRequest.UserID (h_req (hs ! i))) \<noteq> None) \<and>
     (list_all finished hs \<or> (\<exists>j<length hs. step j (hs, m) \<noteq> (hs, m))) \<and>
     (\<forall>j. step j (hs, m) = (hs, m) \<or> remaining (fst (step j (hs, m))) < remaining hs) \<and>
     (\<exists>sched' hs' m'.
        exec sched' (hs, m) = (hs', m') \<and> length hs' = length hs0 \<and>
        (\<forall>i<length hs0. \<exists>p.
           h_pc (hs' ! i) = L77 p \<and> p < length (objects m') \<and>
           map_of (RoomPtrs m') (CheckInRequest.RoomID (h_req (hs0 ! i))) = Some p \<and>
           Name (objects m' ! p) = CheckInRequest.RoomID (h_req (hs0 ! i)) \<and>
           length (filter (\<lambda>room. Name room = CheckInRequest.RoomID (h_req (hs0 ! i)))
             (objects m')) = 1 \<and>
           map_of (Users (objects m' ! p)) (CheckInRequest.UserID (h_req (hs0 ! i))) \<noteq> None))"
proof -
  note state = run_state [OF assms]
  have d: "distinct (map Name (objects m))"
    using safe_distinct_names [OF state(1)] by (simp add: names_def)
  have one: "length (filter (\<lambda>room. Name room = r) (objects m)) \<le> 1" for r
    using d by (rule count_distinct)
  have ptr: "p < length (objects m) \<and> Name (objects m ! p) = CheckInRequest.RoomID (h_req (hs ! i))"
    if "i < length hs" "roomOf (h_pc (hs ! i)) = Some p" for i p
    using safe_roomOf [OF state(1) that] by (auto simp: names_def)
  have same: "p = p'"
    if "i < length hs" "j < length hs" "roomOf (h_pc (hs ! i)) = Some p"
      "roomOf (h_pc (hs ! j)) = Some p'"
      "CheckInRequest.RoomID (h_req (hs ! i)) = CheckInRequest.RoomID (h_req (hs ! j))"
    for i j p p'
  proof -
    have "p < length (names m)" "p' < length (names m)" "names m ! p = names m ! p'"
      using safe_roomOf [OF state(1) that(1,3)] safe_roomOf [OF state(1) that(2,4)] that(5)
      by simp_all
    with safe_distinct_names [OF state(1)] show ?thesis by (simp add: nth_eq_iff_index_eq)
  qed
  have fin: "map_of (RoomPtrs m) (CheckInRequest.RoomID (h_req (hs ! i))) = Some p \<and>
      map_of (Users (objects m ! p)) (CheckInRequest.UserID (h_req (hs ! i))) \<noteq> None"
    if "i < length hs" "h_pc (hs ! i) = L77 p" for i p
    using through_facts(1,5) [OF state(1,2) that] by simp
  have live: "list_all finished hs \<or> (\<exists>j<length hs. step j (hs, m) \<noteq> (hs, m))"
    using state(1,3) by (rule not_stuck)
  have bound: "step j (hs, m) = (hs, m) \<or> remaining (fst (step j (hs, m))) < remaining hs" for j
    by (rule step_stutters_or_moves)
  have "\<exists>sched'. list_all finished (fst (exec sched' (hs, m)))"
    using state(1,3) by (intro completes) simp_all
  then obtain sched' where all: "list_all finished (fst (exec sched' (hs, m)))" ..
  obtain hs' m' where run': "exec sched' (hs, m) = (hs', m')"
    by (cases "exec sched' (hs, m)")
  have whole: "exec (sched @ sched') (hs0, mem_init) = (hs', m')"
    using assms(2) run' by (simp add: exec_append)
  note state' = run_state [OF assms(1) whole]
  have len: "length hs' = length hs0"
    using state'(4) by (rule map_eq_imp_length_eq)
  have reqs: "h_req (hs' ! i) = h_req (hs0 ! i)" if "i < length hs0" for i
    using state'(4) that len by (metis nth_map)
  have goal: "\<exists>p. h_pc (hs' ! i) = L77 p \<and> p < length (objects m') \<and>
      map_of (RoomPtrs m') (CheckInRequest.RoomID (h_req (hs0 ! i))) = Some p \<and>
      Name (objects m' ! p) = CheckInRequest.RoomID (h_req (hs0 ! i)) \<and>
      length (filter (\<lambda>room. Name room = CheckInRequest.RoomID (h_req (hs0 ! i)))
        (objects m')) = 1 \<and>
      map_of (Users (objects m' ! p)) (CheckInRequest.UserID (h_req (hs0 ! i))) \<noteq> None"
    if i: "i < length hs0" for i
  proof -
    have i': "i < length hs'" using i len by simp
    have "finished (hs' ! i)"
      using all run' i' by (simp add: list_all_length)
    then obtain p where pc: "h_pc (hs' ! i) = L77 p" by (auto simp: finished_L77)
    from through_facts [OF state'(1,2) i' pc] pc show ?thesis
      by (simp add: reqs [OF i])
  qed
  have progress: "\<exists>sched' hs' m'.
      exec sched' (hs, m) = (hs', m') \<and> length hs' = length hs0 \<and>
      (\<forall>i<length hs0. \<exists>p.
         h_pc (hs' ! i) = L77 p \<and> p < length (objects m') \<and>
         map_of (RoomPtrs m') (CheckInRequest.RoomID (h_req (hs0 ! i))) = Some p \<and>
         Name (objects m' ! p) = CheckInRequest.RoomID (h_req (hs0 ! i)) \<and>
         length (filter (\<lambda>room. Name room = CheckInRequest.RoomID (h_req (hs0 ! i)))
           (objects m')) = 1 \<and>
         map_of (Users (objects m' ! p)) (CheckInRequest.UserID (h_req (hs0 ! i))) \<noteq> None)"
    using run' len goal by blast
  have safety: "(\<forall>r. length (filter (\<lambda>room. Name room = r) (objects m)) \<le> 1) \<and>
     (\<forall>i<length hs. \<forall>p. roomOf (h_pc (hs ! i)) = Some p \<longrightarrow>
        p < length (objects m) \<and> Name (objects m ! p) = CheckInRequest.RoomID (h_req (hs ! i))) \<and>
     (\<forall>i<length hs. \<forall>j<length hs. \<forall>p p'.
        roomOf (h_pc (hs ! i)) = Some p \<and> roomOf (h_pc (hs ! j)) = Some p' \<and>
        CheckInRequest.RoomID (h_req (hs ! i)) = CheckInRequest.RoomID (h_req (hs ! j)) \<longrightarrow> p = p') \<and>
     (\<forall>i<length hs. \<forall>p. h_pc (hs ! i) = L77 p \<longrightarrow>
        map_of (RoomPtrs m) (CheckInRequest.RoomID (h_req (hs ! i))) = Some p \<and>
        map_of (Users (objects m ! p)) (CheckInRequest.UserID (h_req (hs ! i))) \<noteq> None)"
    using one ptr same fin by blast
  show ?thesis
    using state(4) safety live bound progress by (intro conjI allI) blast+
qed

theorem concurrent_checkIn_one_room_witness:
  "list_all (\<lambda>h. h_pc h = L62) example_handlers \<and>
   length (filter (\<lambda>room. Name room = ''r1'')
     (objects (snd (exec example_schedule (example_handlers, mem_init))))) \<le> 1 \<and>
   map h_pc (fst (exec example_schedule (example_handlers, mem_init))) = [L77 0, L77 0] \<and>
   map_of (RoomPtrs (snd (exec example_schedule (example_handlers, mem_init)))) ''r1'' = Some 0"
proof -
  have start: "list_all (\<lambda>h. h_pc h = L62) example_handlers"
    by (simp add: example_handlers_def spawn_def)
  have run: "exec example_schedule (example_handlers, mem_init) =
      (fst (exec example_schedule (example_handlers, mem_init)),
       snd (exec example_schedule (example_handlers, mem_init)))"
    by simp
  have "length (filter (\<lambda>room. Name room = ''r1'')
     (objects (snd (exec example_schedule (example_handlers, mem_init))))) \<le> 1"
    using concurrent_checkIn_one_room [OF start run] by blast
  with start show ?thesis
    by (simp add: example_run)
qed

subsection \<open>Requests without ids\<close>

text \<open>
  Claim C8. A check-in or a refresh whose user id or room id is empty (which is what a
  missing JSON field decodes to) is answered with status 400, the same on every registry, and
  the registry is returned as it was.
\<close>

theorem empty_ids_rejected:
  "(CheckInRequest.UserID creq = [] \<or> CheckInRequest.RoomID creq = [] \<longrightarrow>
      checkInHandler now (Some creq) api = (FieldsRequired, api)) \<and>
   (UpdatePresenceRequest.UserID ureq = [] \<or> UpdatePresenceRequest.RoomID ureq = [] \<longrightarrow>
      updatePresenceHandler now (Some ureq) api = (FieldsRequired, api)) \<and>
   statusCode FieldsRequired = 400"
  by (auto simp: checkInHandler_def updatePresenceHandler_def)

theorem empty_ids_rejected_witness:
  "checkInHandler 3 (Some \<lparr>CheckInRequest.UserID = [], CheckInRequest.RoomID = ''r1''\<rparr>) example_api =
     (FieldsRequired, example_api) \<and>
   updatePresenceHandler 3
     (Some \<lparr>UpdatePresenceRequest.UserID = ''bob'', UpdatePresenceRequest.RoomID = [], ExpiresIn = 10\<rparr>)
     example_api = (FieldsRequired, example_api)"
  using empty_ids_rejected [of "\<lparr>CheckInRequest.UserID = [], CheckInRequest.RoomID = ''r1''\<rparr>" 3 example_api
      "\<lparr>UpdatePresenceRequest.UserID = ''bob'', UpdatePresenceRequest.RoomID = [], ExpiresIn = 10\<rparr>"]
  by simp

subsection \<open>Keys and the fields that repeat them\<close>

text \<open>
  Claim C9. In every registry that the server can reach, a room found under the key \<open>r\<close> has
  the \<open>Name\<close> \<open>r\<close>, and a user found under the key \<open>u\<close> in that room has the \<open>ID\<close> \<open>u\<close>.
  (\<open>keys_consistent_checkIn\<close>, \<open>keys_consistent_updatePresence\<close> and
  \<open>keys_consistent_listRooms\<close> above are the three handlers one by one.)
\<close>

theorem keys_match_fields:
  assumes "reachable api"
  shows "\<forall>r room. findRoom api r = Some room \<longrightarrow>
     Name room = r \<and> (\<forall>u user. map_of (Users room) u = Some user \<longrightarrow> ID user = u)"
  using reachable_invariant [OF assms]
  by (auto dest: keys_consistent_room users_consistent_user)

theorem keys_match_fields_witness:
  "reachable (snd (checkInHandler 3
      (Some \<lparr>CheckInRequest.UserID = ''alice'', CheckInRequest.RoomID = ''r1''\<rparr>) api_init)) \<and>
   findRoom (snd (checkInHandler 3
      (Some \<lparr>CheckInRequest.UserID = ''alice'', CheckInRequest.RoomID = ''r1''\<rparr>) api_init)) ''r1'' =
     Some \<lparr>Name = ''r1'', Users = [(''alice'', \<lparr>ID = ''alice'', ExpiresAt = 300000000003\<rparr>)]\<rparr> \<and>
   Name \<lparr>Name = ''r1'', Users = [(''alice'', \<lparr>ID = ''alice'', ExpiresAt = 300000000003\<rparr>)]\<rparr> = ''r1''"
proof -
  let ?body = "Some \<lparr>CheckInRequest.UserID = ''alice'', CheckInRequest.RoomID = ''r1''\<rparr>"
  let ?api = "snd (checkInHandler 3 ?body api_init)"
  have "serve (CheckIn 3 ?body) api_init = (fst (checkInHandler 3 ?body api_init), ?api)"
    by simp
  with reachable.init have r: "reachable ?api" by (rule reachable.step)
  have room: "findRoom ?api ''r1'' =
      Some \<lparr>Name = ''r1'', Users = [(''alice'', \<lparr>ID = ''alice'', ExpiresAt = 300000000003\<rparr>)]\<rparr>"
  proof -
    have "roomOrNew api_init ''r1'' = \<lparr>Name = ''r1'', Users = []\<rparr>"
      by (simp add: roomOrNew_def findRoom_def api_init_def)
    then show ?thesis by (simp add: checkInHandler_valid findRoom_storeRoom)
  qed
  from keys_match_fields [OF r] r room show ?thesis by blast
qed

subsection \<open>What a refresh leaves alone\<close>

text \<open>
  Claim C10. A refresh that does not answer \<open>PresenceUpdated\<close> returns the registry as it
  was. A refresh that answers \<open>PresenceUpdated u r\<close> found an entry for \<open>u\<close> in \<open>r\<close> and leaves
  that entry with nothing but \<open>ExpiresAt\<close> changed; every other user of every room is found
  as before, every other room is as before, the room \<open>r\<close> keeps its \<open>Name\<close>, and the
  registry holds the same room ids.
\<close>

theorem refresh_frame:
  assumes "updatePresenceHandler now body api = (resp, api')"
  shows "((\<forall>u r. resp \<noteq> PresenceUpdated u r) \<longrightarrow> api' = api) \<and>
     (\<forall>u r. resp = PresenceUpdated u r \<longrightarrow>
        (\<exists>user t. findUser api r u = Some user \<and> findUser api' r u = Some (user\<lparr>ExpiresAt := t\<rparr>)) \<and>
        (\<forall>r' u'. (r', u') \<noteq> (r, u) \<longrightarrow> findUser api' r' u' = findUser api r' u') \<and>
        (\<forall>r'. r' \<noteq> r \<longrightarrow> findRoom api' r' = findRoom api r') \<and>
        map_option Name (findRoom api' r) = map_option Name (findRoom api r) \<and>
        map fst (Rooms api') = map fst (Rooms api))"
proof (cases now body api rule: updatePresenceHandler_cases)
  case failed
  then show ?thesis using assms by simp
next
  case (updated req room user)
  let ?r = "UpdatePresenceRequest.RoomID req" and ?u = "UpdatePresenceRequest.UserID req"
  let ?user' = "user\<lparr>ExpiresAt := time_Add now (refreshTTL (ExpiresIn req))\<rparr>"
  let ?room' = "room\<lparr>Users := AList.update ?u ?user' (Users room)\<rparr>"
  have resp: "resp = PresenceUpdated ?u ?r" and api': "api' = storeRoom ?r ?room' api"
    using assms updated(4) by simp_all
  have old: "findUser api ?r ?u = Some user"
    using updated(2,3) by (simp add: findUser_def)
  have new: "findUser api' ?r ?u = Some ?user'"
    by (simp add: api' findUser_storeRoom update_conv')
  have others: "findUser api' r' u' = findUser api r' u'" if "(r', u') \<noteq> (?r, ?u)" for r' u'
  proof (cases "r' = ?r")
    case True
    then have "u' \<noteq> ?u" using that by simp
    then have "findUser api' r' u' = map_of (Users room) u'"
      using True by (simp add: api' findUser_storeRoom update_conv')
    also have "\<dots> = findUser api r' u'"
      using True updated(2) by (simp add: findUser_def)
    finally show ?thesis .
  next
    case False
    then show ?thesis by (simp add: api' findUser_storeRoom)
  qed
  have rooms: "findRoom api' r' = findRoom api r'" if "r' \<noteq> ?r" for r'
    using that by (simp add: api' findRoom_storeRoom)
  have name: "map_option Name (findRoom api' ?r) = map_option Name (findRoom api ?r)"
    using updated(2) by (simp add: api' findRoom_storeRoom)
  have keys: "map fst (Rooms api') = map fst (Rooms api)"
    using updated(2) by (simp add: api' storeRoom_keys)
  show ?thesis
    using resp old new others rooms name keys by (intro conjI allI impI) blast+
qed

theorem refresh_frame_witness:
  "updatePresenceHandler 12
     (Some \<lparr>UpdatePresenceRequest.UserID = ''bob'', UpdatePresenceRequest.RoomID = ''r1'', ExpiresIn = 10\<rparr>)
     example_api =
     (PresenceUpdated ''bob'' ''r1'',
      snd (updatePresenceHandler 12
        (Some \<lparr>UpdatePresenceRequest.UserID = ''bob'', UpdatePresenceRequest.RoomID = ''r1'', ExpiresIn = 10\<rparr>)
        example_api)) \<and>
   findUser (snd (updatePresenceHandler 12
        (Some \<lparr>UpdatePresenceRequest.UserID = ''bob'', UpdatePresenceRequest.RoomID = ''r1'', ExpiresIn = 10\<rparr>)
        example_api)) ''r1'' ''alice'' = findUser example_api ''r1'' ''alice'' \<and>
   findRoom (snd (updatePresenceHandler 12
        (Some \<lparr>UpdatePresenceRequest.UserID = ''bob'', UpdatePresenceRequest.RoomID = ''r1'', ExpiresIn = 10\<rparr>)
        example_api)) ''r2'' = findRoom example_api ''r2''"
proof -
  let ?body = "Some \<lparr>UpdatePresenceRequest.UserID = ''bob'', UpdatePresenceRequest.RoomID = ''r1'', ExpiresIn = 10\<rparr>"
  let ?res = "updatePresenceHandler 12 ?body example_api"
  have ok: "?res = (PresenceUpdated ''bob'' ''r1'', snd ?res)"
    by (simp add: updatePresenceHandler_valid findRoom_def example_api_def example_r1_def)
  from refresh_frame [OF ok] ok show ?thesis by simp
qed

end
